theory Spec2Isabelle
  imports Complex_Main "HOL-Library.Word"
begin

section \<open>Constants and the Resolution Catalog\<close>

text \<open>
  \<^verbatim>\<open>constants.ts\<close>: the tile size and the grid of tiles of every supported zoom level.
  \<^verbatim>\<open>types.ts\<close>: the \<^verbatim>\<open>Progress\<close> and \<^verbatim>\<open>Resolution\<close> interfaces. A zoom level is a
  JavaScript number that the caller chooses freely, so it is an \<open>int\<close>; counts of tiles
  and pixels are natural numbers. The fields \<^verbatim>\<open>x\<close> and \<^verbatim>\<open>y\<close> of a grid are \<open>gx\<close> and
  \<open>gy\<close> here, and the fields \<^verbatim>\<open>zoom\<close>, \<^verbatim>\<open>width\<close> and \<^verbatim>\<open>height\<close> of a resolution
  carry the prefix \<open>res_\<close>.
\<close>

definition TILE_SIZE :: nat where
  "TILE_SIZE = 512"

record grid =
  zoom :: int
  gx :: nat
  gy :: nat

definition GRID_SIZES :: "grid list" where
  "GRID_SIZES = [\<lparr>zoom = 3, gx = 8, gy = 4\<rparr>, \<lparr>zoom = 4, gx = 16, gy = 8\<rparr>]"

record progress =
  loaded :: nat
  total :: nat

record resolution =
  res_zoom :: int
  res_width :: nat
  res_height :: nat
  label :: string
  tileCount :: nat

text \<open>Decimal printing of a number, as a template literal does it.\<close>

definition digit_char :: "nat \<Rightarrow> char" where
  "digit_char d = char_of (48 + d)"

function show_nat :: "nat \<Rightarrow> string" where
  "show_nat n = (if n < 10 then [digit_char n] else show_nat (n div 10) @ [digit_char (n mod 10)])"
  by pat_completeness auto
termination
  by (relation "measure id") auto

definition show_int :: "int \<Rightarrow> string" where
  "show_int i = (if i < 0 then CHR ''-'' # show_nat (nat (- i)) else show_nat (nat i))"

text \<open>
  \<^verbatim>\<open>getAvailableResolutions\<close>: one entry per grid, in the order of \<^verbatim>\<open>GRID_SIZES\<close>; the
  label is \<^verbatim>\<open>labels[index]\<close> where that exists and \<^verbatim>\<open>Zoom <n>\<close> otherwise.
\<close>

definition labels :: "string list" where
  "labels = [''High'', ''Maximum'']"

definition resolution_of :: "grid \<Rightarrow> nat \<Rightarrow> resolution" where
  "resolution_of g index =
     \<lparr>res_zoom = zoom g,
      res_width = gx g * TILE_SIZE,
      res_height = gy g * TILE_SIZE,
      label = (if index < length labels \<and> labels ! index \<noteq> [] then labels ! index
               else ''Zoom '' @ show_int (zoom g)),
      tileCount = gx g * gy g\<rparr>"

definition getAvailableResolutions :: "resolution list" where
  "getAvailableResolutions =
     map (\<lambda>(g, index). resolution_of g index) (zip GRID_SIZES [0..<length GRID_SIZES])"

section \<open>Pixels, canvases and the 2D context\<close>

text \<open>
  The failures of a stitch job, named as the specification names them. \<^verbatim>\<open>IndexSizeError\<close>
  is the DOM exception of \<^verbatim>\<open>getImageData\<close> (HTML Standard, 4.12.5.1.16: thrown when the
  requested width or height is zero).
\<close>

datatype error =
    InvalidZoom int
  | TileUnavailable string
  | RenderingUnavailable
  | IndexSizeError

text \<open>
  One pixel is four bytes of a \<^verbatim>\<open>Uint8ClampedArray\<close>: \<^verbatim>\<open>data[i]\<close>, \<^verbatim>\<open>data[i + 1]\<close>,
  \<^verbatim>\<open>data[i + 2]\<close>, \<^verbatim>\<open>data[i + 3]\<close>. An \<^verbatim>\<open>ImageData\<close> array is modelled as the list
  of its pixels, so the byte index \<^verbatim>\<open>i\<close> of the source is four times the list index.
\<close>

datatype pixel = RGBA (red: "8 word") (green: "8 word") (blue: "8 word") (alpha: "8 word")

definition transparent :: pixel where
  "transparent = RGBA 0 0 0 0"

definition black :: pixel where
  "black = RGBA 0 0 0 255"

text \<open>
  An image or a canvas: its size and its bitmap. Only the pixels inside the size are part
  of the bitmap; \<open>pixel_at\<close> reads transparent black outside, as the canvas does.
\<close>

record canvas =
  width :: nat
  height :: nat
  px :: "nat \<Rightarrow> nat \<Rightarrow> pixel"

definition pixel_at :: "canvas \<Rightarrow> nat \<Rightarrow> nat \<Rightarrow> pixel" where
  "pixel_at c x y = (if x < width c \<and> y < height c then px c x y else transparent)"

definition createCanvas :: "nat \<Rightarrow> nat \<Rightarrow> canvas" where
  "createCanvas w h = \<lparr>width = w, height = h, px = (\<lambda>x y. transparent)\<rparr>"

text \<open>
  \<^verbatim>\<open>ctx.drawImage(img, dx, dy)\<close> and the nine-argument form with equal source and
  destination sizes. The canvas composites source-over; the model stores the source
  pixel, which is the same for an opaque source (the JPEG tiles) and for any source
  drawn onto a fresh, transparent canvas (the copies of the classifier, the cropper and
  the wrap-seam detector). A source pixel with alpha below 255 drawn over the black
  fill would be blended by the canvas and is outside this model.
\<close>

definition drawImage :: "canvas \<Rightarrow> canvas \<Rightarrow> nat \<Rightarrow> nat \<Rightarrow> canvas" where
  "drawImage c img dx dy =
     c\<lparr>px := (\<lambda>x y. if dx \<le> x \<and> x < dx + width img \<and> dy \<le> y \<and> y < dy + height img
                     then pixel_at img (x - dx) (y - dy) else px c x y)\<rparr>"

definition drawImageRegion :: "canvas \<Rightarrow> canvas \<Rightarrow> nat \<Rightarrow> nat \<Rightarrow> nat \<Rightarrow> nat \<Rightarrow> canvas" where
  "drawImageRegion c src sx sy w h =
     c\<lparr>px := (\<lambda>x y. if x < w \<and> y < h then pixel_at src (sx + x) (sy + y) else px c x y)\<rparr>"

definition fillRect :: "canvas \<Rightarrow> pixel \<Rightarrow> nat \<Rightarrow> nat \<Rightarrow> canvas" where
  "fillRect c colour w h = c\<lparr>px := (\<lambda>x y. if x < w \<and> y < h then colour else px c x y)\<rparr>"

text \<open>\<^verbatim>\<open>ctx.getImageData(sx, sy, sw, sh).data\<close>: the pixels of the rectangle, row by row.\<close>

definition getImageData :: "canvas \<Rightarrow> nat \<Rightarrow> nat \<Rightarrow> nat \<Rightarrow> nat \<Rightarrow> error + pixel list" where
  "getImageData c sx sy sw sh =
     (if sw = 0 \<or> sh = 0 then Inl IndexSizeError
      else Inr (map (\<lambda>k. pixel_at c (sx + k mod sw) (sy + k div sw)) [0..<sw * sh]))"

text \<open>
  \<^verbatim>\<open>data[i] > thresh || data[i + 1] > thresh || data[i + 2] > thresh\<close> with
  \<^verbatim>\<open>thresh = 25\<close>.
\<close>

definition thresh :: "8 word" where
  "thresh = 25"

definition bright :: "pixel \<Rightarrow> bool" where
  "bright p = (thresh < red p \<or> thresh < green p \<or> thresh < blue p)"

text \<open>
  The two comparisons of counts, on exact fractions. The operands are integers below
  \<open>2^53\<close>, for which the double-precision quotient lies on the same side of the rounded
  constant as the exact quotient lies of the decimal one. \<^verbatim>\<open>0 / 0\<close> is \<^verbatim>\<open>NaN\<close> and
  \<^verbatim>\<open>n / 0\<close> is \<^verbatim>\<open>Infinity\<close>: neither is below \<^verbatim>\<open>0.02\<close>, and \<^verbatim>\<open>Infinity\<close> is above
  \<^verbatim>\<open>0.05\<close>.
\<close>

definition below_noise :: "nat \<Rightarrow> nat \<Rightarrow> bool" where
  "below_noise nonBlack checked =
     (checked \<noteq> 0 \<and> (of_nat nonBlack / of_nat checked :: rat) < 2 / 100)"

definition clearly_not_black :: "nat \<Rightarrow> nat \<Rightarrow> bool" where
  "clearly_not_black nonBlack extent =
     (if extent = 0 then nonBlack \<noteq> 0
      else (of_nat nonBlack / (of_nat extent / 4) :: rat) > 5 / 100)"

section \<open>Tile Classifier\<close>

text \<open>
  The loop of \<^verbatim>\<open>isTileBlack\<close>: \<^verbatim>\<open>for (let i = 0; i < data.length; i += 4 * 16)\<close>, sixteen
  pixels a step, returning \<^verbatim>\<open>(nonBlackCount, checkedPixels)\<close>.
\<close>

function isTileBlack_loop :: "pixel list \<Rightarrow> nat \<Rightarrow> nat \<Rightarrow> nat \<Rightarrow> nat \<times> nat" where
  "isTileBlack_loop data i nonBlackCount checkedPixels =
     (if i < length data
      then isTileBlack_loop data (i + 16)
             (if bright (data ! i) then nonBlackCount + 1 else nonBlackCount)
             (checkedPixels + 1)
      else (nonBlackCount, checkedPixels))"
  by pat_completeness auto
termination
  by (relation "measure (\<lambda>(data, i, n, c). length data - i)") auto

text \<open>
  \<^verbatim>\<open>isTileBlack\<close>. The first argument says whether \<^verbatim>\<open>canvas.getContext('2d')\<close> gave a
  context; without one the tile counts as not black.
\<close>

definition isTileBlack :: "bool \<Rightarrow> canvas \<Rightarrow> error + bool" where
  "isTileBlack ctx img =
     (if \<not> ctx then Inr False
      else
        let canvas = drawImage (createCanvas (width img) (height img)) img 0 0 in
        case getImageData canvas 0 0 (width canvas) (height canvas) of
          Inl e \<Rightarrow> Inl e
        | Inr data \<Rightarrow>
            (case isTileBlack_loop data 0 0 0 of
               (nonBlackCount, checkedPixels) \<Rightarrow> Inr (below_noise nonBlackCount checkedPixels)))"

text \<open>
  Every \<open>n\<close>-th element of a list, the first one included: the elements that a loop with
  stride \<open>n\<close> reads.
\<close>

fun sampled :: "nat \<Rightarrow> 'a list \<Rightarrow> 'a list" where
  "sampled n [] = []"
| "sampled n (x # xs) = x # sampled n (drop (n - 1) xs)"

text \<open>The pixels of an image, row by row.\<close>

definition image_pixels :: "canvas \<Rightarrow> pixel list" where
  "image_pixels img =
     map (\<lambda>k. pixel_at img (k mod width img) (k div width img)) [0..<width img * height img]"

section \<open>Border Cropper\<close>

text \<open>
  The loop shared by \<^verbatim>\<open>isRowBlack\<close> and \<^verbatim>\<open>isColBlack\<close>:
  \<^verbatim>\<open>for (let i = 0; i < data.length; i += 4 * 4)\<close>, four pixels a step, with the early
  \<^verbatim>\<open>return false\<close> once \<^verbatim>\<open>nonBlack / (extent / 4) > 0.05\<close>, where \<open>extent\<close> is the
  canvas width for a row and the canvas height for a column.
\<close>

function isLineBlack_loop :: "nat \<Rightarrow> pixel list \<Rightarrow> nat \<Rightarrow> nat \<Rightarrow> nat \<Rightarrow> bool" where
  "isLineBlack_loop extent data i nonBlack checked =
     (if i < length data
      then (if bright (data ! i)
            then (if clearly_not_black (nonBlack + 1) extent then False
                  else isLineBlack_loop extent data (i + 4) (nonBlack + 1) (checked + 1))
            else isLineBlack_loop extent data (i + 4) nonBlack (checked + 1))
      else below_noise nonBlack checked)"
  by pat_completeness auto
termination
  by (relation "measure (\<lambda>(extent, data, i, n, c). length data - i)") auto

definition isRowBlack :: "canvas \<Rightarrow> nat \<Rightarrow> error + bool" where
  "isRowBlack c y =
     (case getImageData c 0 y (width c) 1 of
        Inl e \<Rightarrow> Inl e
      | Inr data \<Rightarrow> Inr (isLineBlack_loop (width c) data 0 0 0))"

definition isColBlack :: "canvas \<Rightarrow> nat \<Rightarrow> error + bool" where
  "isColBlack c x =
     (case getImageData c x 0 1 (height c) of
        Inl e \<Rightarrow> Inl e
      | Inr data \<Rightarrow> Inr (isLineBlack_loop (height c) data 0 0 0))"

text \<open>
  \<^verbatim>\<open>while (top <= bottom && isRowBlack(top)) top++\<close> and
  \<^verbatim>\<open>while (bottom >= top && isRowBlack(bottom)) bottom--\<close>, and the same two loops on
  columns. The bounds are JavaScript numbers: \<^verbatim>\<open>bottom\<close> is \<open>-1\<close> on a canvas of height
  zero. The test is called on indices from zero upwards only.
\<close>

function scan_forward :: "(nat \<Rightarrow> error + bool) \<Rightarrow> int \<Rightarrow> int \<Rightarrow> error + int" where
  "scan_forward isBlack lo hi =
     (if lo \<le> hi
      then (case isBlack (nat lo) of
              Inl e \<Rightarrow> Inl e
            | Inr b \<Rightarrow> if b then scan_forward isBlack (lo + 1) hi else Inr lo)
      else Inr lo)"
  by pat_completeness auto
termination
  by (relation "measure (\<lambda>(isBlack, lo, hi). nat (hi + 1 - lo))") auto

function scan_backward :: "(nat \<Rightarrow> error + bool) \<Rightarrow> int \<Rightarrow> int \<Rightarrow> error + int" where
  "scan_backward isBlack hi lo =
     (if hi \<ge> lo
      then (case isBlack (nat hi) of
              Inl e \<Rightarrow> Inl e
            | Inr b \<Rightarrow> if b then scan_backward isBlack (hi - 1) lo else Inr hi)
      else Inr hi)"
  by pat_completeness auto
termination
  by (relation "measure (\<lambda>(isBlack, hi, lo). nat (hi + 1 - lo))") auto

text \<open>
  \<^verbatim>\<open>cropBlackEdges\<close>. \<open>ctx\<close> says whether the canvas gave its 2D context, \<open>cctx\<close> whether
  the new canvas of the cropped size gave one. The source's \<^verbatim>\<open>top\<close> is \<open>top'\<close> here.
\<close>

definition cropBlackEdges :: "bool \<Rightarrow> bool \<Rightarrow> canvas \<Rightarrow> error + canvas" where
  "cropBlackEdges ctx cctx canvas =
     (if \<not> ctx then Inr canvas
      else
        let w = int (width canvas); h = int (height canvas) in
        (case scan_forward (isRowBlack canvas) 0 (h - 1) of Inl e \<Rightarrow> Inl e | Inr top' \<Rightarrow>
        (case scan_backward (isRowBlack canvas) (h - 1) top' of Inl e \<Rightarrow> Inl e | Inr bottom \<Rightarrow>
        (case scan_forward (isColBlack canvas) 0 (w - 1) of Inl e \<Rightarrow> Inl e | Inr left \<Rightarrow>
        (case scan_backward (isColBlack canvas) (w - 1) left of Inl e \<Rightarrow> Inl e | Inr right \<Rightarrow>
          (if top' > bottom \<or> left > right then Inr canvas
           else if top' = 0 \<and> bottom = h - 1 \<and> left = 0 \<and> right = w - 1 then Inr canvas
           else
             let cropWidth = nat (right - left + 1);
                 cropHeight = nat (bottom - top' + 1);
                 cropped = createCanvas cropWidth cropHeight
             in if cctx
                then Inr (drawImageRegion cropped canvas (nat left) (nat top') cropWidth cropHeight)
                else Inr canvas))))))"

section \<open>Wrap-Seam Detector\<close>

text \<open>
  The two inner loops of \<^verbatim>\<open>removeHorizontalWrap\<close> for one offset \<^verbatim>\<open>dx\<close>: rows of the
  band in steps of eight, the sixteen columns of the reference strip in steps of four.
  They return \<^verbatim>\<open>(totalDiff, pixelsChecked)\<close>.
\<close>

definition channel_diff :: "8 word \<Rightarrow> 8 word \<Rightarrow> nat" where
  "channel_diff a b = nat \<bar>int (unat a) - int (unat b)\<bar>"

definition pixel_diff :: "pixel \<Rightarrow> pixel \<Rightarrow> nat" where
  "pixel_diff p q =
     channel_diff (red p) (red q) + channel_diff (green p) (green q)
       + channel_diff (blue p) (blue q)"

function window_diff_cols ::
  "pixel list \<Rightarrow> pixel list \<Rightarrow> nat \<Rightarrow> nat \<Rightarrow> nat \<Rightarrow> nat \<Rightarrow> nat \<Rightarrow> nat \<Rightarrow> nat \<times> nat" where
  "window_diff_cols sourceData searchArea searchWidth dx y wx totalDiff pixelsChecked =
     (if wx < 16
      then window_diff_cols sourceData searchArea searchWidth dx y (wx + 4)
             (totalDiff + pixel_diff (sourceData ! (y * 16 + wx))
                                     (searchArea ! (y * searchWidth + (dx + wx))))
             (pixelsChecked + 1)
      else (totalDiff, pixelsChecked))"
  by pat_completeness auto
termination
  by (relation "measure (\<lambda>(s, a, sw, dx, y, wx, t, p). 16 - wx)") auto

function window_diff_rows ::
  "pixel list \<Rightarrow> pixel list \<Rightarrow> nat \<Rightarrow> nat \<Rightarrow> nat \<Rightarrow> nat \<Rightarrow> nat \<Rightarrow> nat \<Rightarrow> nat \<times> nat" where
  "window_diff_rows sourceData searchArea searchWidth scanHeight dx y totalDiff pixelsChecked =
     (if y < scanHeight
      then (case window_diff_cols sourceData searchArea searchWidth dx y 0 totalDiff pixelsChecked of
              (t, p) \<Rightarrow> window_diff_rows sourceData searchArea searchWidth scanHeight dx (y + 8) t p)
      else (totalDiff, pixelsChecked))"
  by pat_completeness auto
termination
  by (relation "measure (\<lambda>(s, a, sw, sh, dx, y, t, p). sh - y)") auto

text \<open>
  The search loop \<^verbatim>\<open>for (let dx = 0; dx < searchWidth - W; dx += 2)\<close> with its
  \<^verbatim>\<open>break\<close>. \<^verbatim>\<open>minDiff\<close> is \<open>None\<close> while it is \<^verbatim>\<open>Infinity\<close>. With no pixel checked
  \<^verbatim>\<open>avgDiff\<close> is \<^verbatim>\<open>NaN\<close> and both comparisons are false. It returns
  \<^verbatim>\<open>(bestMatchX, minDiff)\<close>.
\<close>

function wrap_search ::
  "pixel list \<Rightarrow> pixel list \<Rightarrow> nat \<Rightarrow> nat \<Rightarrow> nat \<Rightarrow> nat \<Rightarrow> int \<Rightarrow> rat option
     \<Rightarrow> int \<times> rat option" where
  "wrap_search sourceData searchArea startX searchWidth scanHeight dx bestMatchX minDiff =
     (if int dx < int searchWidth - 16
      then (case window_diff_rows sourceData searchArea searchWidth scanHeight dx 0 0 0 of
              (totalDiff, pixelsChecked) \<Rightarrow>
                if pixelsChecked = 0
                then wrap_search sourceData searchArea startX searchWidth scanHeight (dx + 2)
                       bestMatchX minDiff
                else
                  let avgDiff = (of_nat totalDiff / of_nat (pixelsChecked * 3) :: rat);
                      better = (case minDiff of None \<Rightarrow> True | Some m \<Rightarrow> avgDiff < m);
                      minDiff' = (if better then Some avgDiff else minDiff);
                      bestMatchX' = (if better then int (startX + dx) else bestMatchX)
                  in if avgDiff < 8 then (int (startX + dx), minDiff')
                     else wrap_search sourceData searchArea startX searchWidth scanHeight (dx + 2)
                            bestMatchX' minDiff')
      else (bestMatchX, minDiff))"
  by pat_completeness auto
termination
  by (relation "measure (\<lambda>(s, a, sx, sw, sh, dx, b, m). sw - dx)") auto

text \<open>
  \<^verbatim>\<open>removeHorizontalWrap\<close>. \<^verbatim>\<open>Math.floor(height * 0.3)\<close>, \<^verbatim>\<open>Math.floor(height * 0.4)\<close>
  and \<^verbatim>\<open>Math.floor(width * 0.25)\<close> are the integer quotients below for every size a
  canvas can have.
\<close>

definition removeHorizontalWrap :: "bool \<Rightarrow> bool \<Rightarrow> canvas \<Rightarrow> error + canvas" where
  "removeHorizontalWrap ctx cctx canvas =
     (if \<not> ctx then Inr canvas
      else
        let startY = (height canvas * 3) div 10;
            scanHeight = (height canvas * 4) div 10
        in if scanHeight \<le> 0 \<or> width canvas < 512 then Inr canvas
           else
             (case getImageData canvas 0 startY 16 scanHeight of
                Inl e \<Rightarrow> Inl e
              | Inr sourceData \<Rightarrow>
                  (let startX = width canvas div 4;
                       searchWidth = width canvas - startX
                   in if searchWidth \<le> 16 then Inr canvas
                      else
                        (case getImageData canvas startX startY searchWidth scanHeight of
                           Inl e \<Rightarrow> Inl e
                         | Inr searchArea \<Rightarrow>
                             (case wrap_search sourceData searchArea startX searchWidth scanHeight
                                     0 (- 1) None of
                                (bestMatchX, minDiff) \<Rightarrow>
                                  (if bestMatchX \<noteq> - 1
                                        \<and> (case minDiff of None \<Rightarrow> False | Some m \<Rightarrow> m < 15)
                                   then
                                     let cropped = createCanvas (nat bestMatchX) (height canvas)
                                     in if cctx
                                        then Inr (drawImageRegion cropped canvas 0 0
                                                    (nat bestMatchX) (height canvas))
                                        else Inr canvas
                                   else Inr canvas))))))"

section \<open>Tile Fetcher\<close>

text \<open>
  What one assignment of \<^verbatim>\<open>img.src\<close> ends in: \<^verbatim>\<open>onload\<close> with the decoded image or
  \<^verbatim>\<open>onerror\<close>. The network is a function from the URL and the number of the
  assignment (from zero) to that event; every assignment is taken to end in one of the
  two.
\<close>

datatype load_event = Loaded canvas | Errored

text \<open>
  \<^verbatim>\<open>fetchTileWithRetry\<close>: on an error \<^verbatim>\<open>attempts++\<close>, then another assignment if
  \<^verbatim>\<open>attempts < retries\<close> and the rejection otherwise. \<^verbatim>\<open>retries\<close> defaults to 2.
\<close>

function fetchTileWithRetry_load ::
  "(nat \<Rightarrow> load_event) \<Rightarrow> string \<Rightarrow> nat \<Rightarrow> nat \<Rightarrow> error + canvas" where
  "fetchTileWithRetry_load network url retries attempts =
     (case network attempts of
        Loaded img \<Rightarrow> Inr img
      | Errored \<Rightarrow>
          (if attempts + 1 < retries
           then fetchTileWithRetry_load network url retries (attempts + 1)
           else Inl (TileUnavailable url)))"
  by pat_completeness auto
termination
  by (relation "measure (\<lambda>(network, url, retries, attempts). retries - attempts)") auto

definition fetchTileWithRetry :: "(string \<Rightarrow> nat \<Rightarrow> load_event) \<Rightarrow> string \<Rightarrow> error + canvas" where
  "fetchTileWithRetry network url = fetchTileWithRetry_load (network url) url 2 0"

section \<open>Grid Scheduler and Canvas Compositor\<close>

definition CONCURRENT_DOWNLOADS :: nat where
  "CONCURRENT_DOWNLOADS = 8"

text \<open>
  Everything outside the program that a stitch job meets: the network, whether each
  \<^verbatim>\<open>getContext('2d')\<close> call gives a context (the classifier asks once for every tile),
  and the JPEG encoder behind \<^verbatim>\<open>toDataURL\<close>.
\<close>

record browser =
  network :: "string \<Rightarrow> nat \<Rightarrow> load_event"
  classifierContext :: "nat \<times> nat \<Rightarrow> bool"
  compositorContext :: bool
  cropperContext :: bool
  croppedContext :: bool
  wrapContext :: bool
  wrappedContext :: bool
  toDataURL :: "canvas \<Rightarrow> string"

text \<open>
  The variables of one job that its workers share. \<^verbatim>\<open>images\<close> is keyed by the
  coordinate itself instead of the string \<^verbatim>\<open>x,y\<close>; a stored \<^verbatim>\<open>null\<close> is \<open>Some None\<close>.
  \<open>inflight\<close> are the coordinates whose fetch is awaited, \<open>emitted\<close> the arguments of the
  calls of \<^verbatim>\<open>onProgress\<close> in order, \<open>requested\<close> the URLs handed to the fetcher in order.
\<close>

record job =
  queue :: "(nat \<times> nat) list"
  inflight :: "(nat \<times> nat) list"
  images :: "nat \<times> nat \<Rightarrow> canvas option option"
  loadedTiles :: nat
  emitted :: "progress list"
  requested :: "string list"

definition tileCoords :: "grid \<Rightarrow> (nat \<times> nat) list" where
  "tileCoords g = concat (map (\<lambda>y. map (\<lambda>x. (x, y)) [0..<gx g]) [0..<gy g])"

definition tileUrl :: "string \<Rightarrow> int \<Rightarrow> nat \<times> nat \<Rightarrow> string" where
  "tileUrl panoId z coord =
     ''https://streetviewpixels-pa.googleapis.com/v1/tile?cb_client=maps_sv.tactile&panoid=''
       @ panoId @ ''&x='' @ show_nat (fst coord) @ ''&y='' @ show_nat (snd coord)
       @ ''&zoom='' @ show_int z @ ''&nbt=1&fover=2''"

text \<open>
  \<^verbatim>\<open>processTile\<close> from the point where the awaited fetch has settled: the \<^verbatim>\<open>try\<close> block
  with the classifier, the \<^verbatim>\<open>catch\<close> block for a rejected fetch (and for an exception
  of the classifier), and the \<^verbatim>\<open>finally\<close> block.
\<close>

definition tile_result :: "browser \<Rightarrow> string \<Rightarrow> int \<Rightarrow> nat \<times> nat \<Rightarrow> canvas option" where
  "tile_result env panoId z coord =
     (case fetchTileWithRetry (network env) (tileUrl panoId z coord) of
        Inl e \<Rightarrow> None
      | Inr img \<Rightarrow>
          (case isTileBlack (classifierContext env coord) img of
             Inl e \<Rightarrow> None
           | Inr isBlack \<Rightarrow> if \<not> isBlack then Some img else None))"

definition processTile_settled ::
  "browser \<Rightarrow> string \<Rightarrow> int \<Rightarrow> nat \<Rightarrow> nat \<times> nat \<Rightarrow> job \<Rightarrow> job" where
  "processTile_settled env panoId z totalTiles coord s =
     s\<lparr>images := (images s)(coord := Some (tile_result env panoId z coord)),
       loadedTiles := loadedTiles s + 1,
       emitted := emitted s @ [\<lparr>loaded = loadedTiles s + 1, total = totalTiles\<rparr>]\<rparr>"

text \<open>
  One turn of a worker's loop \<^verbatim>\<open>while (queue.length > 0)\<close> up to its \<^verbatim>\<open>await\<close>: it
  shifts the next coordinate off the queue and hands its URL to the fetcher; on an empty
  queue the worker ends.
\<close>

definition worker_turn :: "string \<Rightarrow> int \<Rightarrow> job \<Rightarrow> job" where
  "worker_turn panoId z s =
     (case queue s of
        [] \<Rightarrow> s
      | coord # rest \<Rightarrow>
          s\<lparr>queue := rest, inflight := inflight s @ [coord],
            requested := requested s @ [tileUrl panoId z coord]\<rparr>)"

text \<open>
  One event of the job: the fetch of the awaited tile number \<open>k\<close> settles, its
  \<^verbatim>\<open>processTile\<close> runs to the end, and the worker that awaited it takes its next turn.
\<close>

definition tile_settles :: "browser \<Rightarrow> string \<Rightarrow> int \<Rightarrow> nat \<Rightarrow> nat \<Rightarrow> job \<Rightarrow> job" where
  "tile_settles env panoId z totalTiles k s =
     (let i = k mod length (inflight s);
          coord = inflight s ! i;
          s' = s\<lparr>inflight := take i (inflight s) @ drop (Suc i) (inflight s)\<rparr>
      in worker_turn panoId z (processTile_settled env panoId z totalTiles coord s'))"

lemma tile_settles_measure:
  "inflight s \<noteq> [] \<Longrightarrow>
     length (queue (tile_settles env panoId z totalTiles k s))
       + length (inflight (tile_settles env panoId z totalTiles k s))
     < length (queue s) + length (inflight s)"
proof -
  assume "inflight s \<noteq> []"
  then have "k mod length (inflight s) < length (inflight s)"
    by simp
  then show ?thesis
    by (cases "queue s")
       (auto simp: tile_settles_def worker_turn_def processTile_settled_def Let_def)
qed

text \<open>
  \<^verbatim>\<open>await Promise.all(workers)\<close>: events until no fetch is awaited. Which awaited fetch
  settles next is up to the network; \<open>schedule\<close> lists the choices, and every order of
  completion is the run of some schedule.
\<close>

function run_workers :: "browser \<Rightarrow> string \<Rightarrow> int \<Rightarrow> nat \<Rightarrow> nat list \<Rightarrow> job \<Rightarrow> job" where
  "run_workers env panoId z totalTiles schedule s =
     (if inflight s = [] then s
      else run_workers env panoId z totalTiles (tl schedule)
             (tile_settles env panoId z totalTiles (case schedule of [] \<Rightarrow> 0 | k # _ \<Rightarrow> k) s))"
  by pat_completeness auto
termination
  by (relation "measure (\<lambda>(env, panoId, z, totalTiles, schedule, s).
                   length (queue s) + length (inflight s))")
     (auto simp: tile_settles_measure)

text \<open>
  The compositor part of \<^verbatim>\<open>stitchStreetViewImage\<close>: a canvas of the size of the grid,
  filled black, with every stored image drawn at its offset.
\<close>

definition composite :: "grid \<Rightarrow> (nat \<times> nat \<Rightarrow> canvas option option) \<Rightarrow> canvas" where
  "composite g imgs =
     (let canvasWidth = gx g * TILE_SIZE;
          canvasHeight = gy g * TILE_SIZE
      in foldl (\<lambda>cv coord.
                  case imgs coord of
                    Some (Some img) \<Rightarrow> drawImage cv img (fst coord * TILE_SIZE) (snd coord * TILE_SIZE)
                  | _ \<Rightarrow> cv)
           (fillRect (createCanvas canvasWidth canvasHeight) black canvasWidth canvasHeight)
           (tileCoords g))"

text \<open>
  The variables of a job when its workers start: every coordinate is queued and
  \<^verbatim>\<open>onProgress({ loaded: 0, total: totalTiles })\<close> has been called.
\<close>

definition start_job :: "grid \<Rightarrow> job" where
  "start_job g =
     \<lparr>queue = tileCoords g, inflight = [], images = (\<lambda>coord. None), loadedTiles = 0,
      emitted = [\<lparr>loaded = 0, total = length (tileCoords g)\<rparr>], requested = []\<rparr>"

text \<open>
  What a call of \<^verbatim>\<open>stitchStreetViewImage\<close> leaves behind: the settled promise (the
  data URL or the error), the calls of \<^verbatim>\<open>onProgress\<close>, the URLs requested, and the
  stored tile results.
\<close>

record stitched =
  outcome :: "error + string"
  progress_log :: "progress list"
  requests :: "string list"
  tiles :: "nat \<times> nat \<Rightarrow> canvas option option"

definition stitchStreetViewImage :: "browser \<Rightarrow> nat list \<Rightarrow> string \<Rightarrow> int \<Rightarrow> stitched" where
  "stitchStreetViewImage env schedule panoId z =
     (case find (\<lambda>g. zoom g = z) GRID_SIZES of
        None \<Rightarrow>
          \<lparr>outcome = Inl (InvalidZoom z), progress_log = [], requests = [], tiles = (\<lambda>coord. None)\<rparr>
      | Some g \<Rightarrow>
          (let totalTiles = length (tileCoords g);
               s = run_workers env panoId z totalTiles schedule
                     ((worker_turn panoId z ^^ CONCURRENT_DOWNLOADS) (start_job g));
               result =
                 (if \<not> compositorContext env then Inl RenderingUnavailable
                  else
                    (case cropBlackEdges (cropperContext env) (croppedContext env)
                            (composite g (images s)) of
                       Inl e \<Rightarrow> Inl e
                     | Inr croppedCanvas \<Rightarrow>
                         (case removeHorizontalWrap (wrapContext env) (wrappedContext env)
                                 croppedCanvas of
                            Inl e \<Rightarrow> Inl e
                          | Inr finalCanvas \<Rightarrow> Inr (toDataURL env finalCanvas))))
           in \<lparr>outcome = result, progress_log = emitted s, requests = requested s,
                tiles = images s\<rparr>))"

subsection \<open>Verdicts and regions of the cropper\<close>

text \<open>
  The verdict of \<^verbatim>\<open>isRowBlack\<close> and \<^verbatim>\<open>isColBlack\<close> where they return one, and the canvas
  that \<^verbatim>\<open>cropBlackEdges\<close> and \<^verbatim>\<open>removeHorizontalWrap\<close> build: a new canvas of \<open>w\<close> by \<open>h\<close>
  pixels with the rectangle of \<open>c\<close> at \<open>(l, t)\<close> drawn onto it.
\<close>

definition rowBlack :: "canvas \<Rightarrow> nat \<Rightarrow> bool" where
  "rowBlack c y = (isRowBlack c y = Inr True)"

definition colBlack :: "canvas \<Rightarrow> nat \<Rightarrow> bool" where
  "colBlack c x = (isColBlack c x = Inr True)"

definition crop_region :: "canvas \<Rightarrow> nat \<Rightarrow> nat \<Rightarrow> nat \<Rightarrow> nat \<Rightarrow> canvas" where
  "crop_region c l t w h = drawImageRegion (createCanvas w h) c l t w h"

text \<open>
  \<open>subregion c' c l t\<close>: the bitmap of \<open>c'\<close> is the rectangle of \<open>c\<close> whose top left
  corner is \<open>(l, t)\<close>, pixel for pixel, and lies inside \<open>c\<close>.
\<close>

definition subregion :: "canvas \<Rightarrow> canvas \<Rightarrow> nat \<Rightarrow> nat \<Rightarrow> bool" where
  "subregion c' c l t =
     (l + width c' \<le> width c \<and> t + height c' \<le> height c
      \<and> (\<forall>x < width c'. \<forall>y < height c'. pixel_at c' x y = pixel_at c (l + x) (t + y)))"

subsection \<open>Measures of a running job\<close>

text \<open>
  \<open>pending\<close> counts the tiles that have not settled. A job is \<open>fed\<close> when some fetch
  is awaited as long as the queue is not empty.
\<close>

definition pending :: "job \<Rightarrow> nat" where
  "pending s = length (queue s) + length (inflight s)"

definition fed :: "job \<Rightarrow> bool" where
  "fed s = (queue s = [] \<or> inflight s \<noteq> [])"

section \<open>Concrete tiles, canvases and browsers\<close>

text \<open>Small inputs on which the functions above are evaluated further down.\<close>

definition white :: pixel where
  "white = RGBA 255 255 255 255"

definition empty_tile :: canvas where
  "empty_tile = \<lparr>width = 0, height = 0, px = (\<lambda>x y. black)\<rparr>"

definition black_pixel_tile :: canvas where
  "black_pixel_tile = \<lparr>width = 1, height = 1, px = (\<lambda>x y. black)\<rparr>"

definition white_pixel_tile :: canvas where
  "white_pixel_tile = \<lparr>width = 1, height = 1, px = (\<lambda>x y. white)\<rparr>"

definition dark_corner_tile :: canvas where
  "dark_corner_tile =
     \<lparr>width = 4, height = 4, px = (\<lambda>x y. if x = 0 \<and> y = 0 then black else white)\<rparr>"

definition diagonal_tile :: canvas where
  "diagonal_tile =
     \<lparr>width = 3, height = 3,
      px = (\<lambda>x y. if (x = 0 \<and> y = 0) \<or> (x = 1 \<and> y = 1) then black else white)\<rparr>"

definition footer_tile :: canvas where
  "footer_tile = \<lparr>width = 1, height = 5, px = (\<lambda>x y. if y = 4 then white else black)\<rparr>"

definition thin_canvas :: canvas where
  "thin_canvas = \<lparr>width = 0, height = 1, px = (\<lambda>x y. black)\<rparr>"

definition offline_browser :: browser where
  "offline_browser =
     \<lparr>network = (\<lambda>url attempt. Errored), classifierContext = (\<lambda>coord. True),
      compositorContext = True, cropperContext = True, croppedContext = True,
      wrapContext = True, wrappedContext = True,
      toDataURL = (\<lambda>c. ''data:image/jpeg;base64,'')\<rparr>"

definition offline_headless_browser :: browser where
  "offline_headless_browser =
     \<lparr>network = (\<lambda>url attempt. Errored), classifierContext = (\<lambda>coord. True),
      compositorContext = False, cropperContext = True, croppedContext = True,
      wrapContext = True, wrappedContext = True,
      toDataURL = (\<lambda>c. ''data:image/jpeg;base64,'')\<rparr>"



section \<open>The Resolution Catalog\<close>

text \<open>
  Claim C9. The catalog query takes no argument and reads no state; it returns exactly
  two entries, zoom 3 with 8 by 4 tiles (4096 by 2048 pixels) and zoom 4 with 16 by 8
  tiles (8192 by 4096 pixels), the tile size is 512, and the tile count of every entry is
  the product of the columns and rows of its grid.
\<close>

theorem getAvailableResolutions_catalog:
  "getAvailableResolutions =
     [\<lparr>res_zoom = 3, res_width = 4096, res_height = 2048, label = ''High'', tileCount = 32\<rparr>,
      \<lparr>res_zoom = 4, res_width = 8192, res_height = 4096, label = ''Maximum'', tileCount = 128\<rparr>]
   \<and> TILE_SIZE = 512
   \<and> map (\<lambda>g. (zoom g, gx g, gy g)) GRID_SIZES = [(3, 8, 4), (4, 16, 8)]
   \<and> map tileCount getAvailableResolutions = map (\<lambda>g. gx g * gy g) GRID_SIZES
   \<and> map res_width getAvailableResolutions = map (\<lambda>g. gx g * 512) GRID_SIZES
   \<and> map res_height getAvailableResolutions = map (\<lambda>g. gy g * 512) GRID_SIZES"
  by (simp add: getAvailableResolutions_def GRID_SIZES_def resolution_of_def TILE_SIZE_def
      labels_def upt_rec)

section \<open>The Tile Classifier\<close>

declare isTileBlack_loop.simps [simp del]

lemma below_noise_nat: "below_noise n c \<longleftrightarrow> c \<noteq> 0 \<and> 50 * n < c"
proof (cases "c = 0")
  case True
  then show ?thesis by (simp add: below_noise_def)
next
  case False
  then have "(of_nat n / of_nat c :: rat) < 2 / 100 \<longleftrightarrow> (of_nat (50 * n) :: rat) < of_nat c"
    by (simp add: field_simps)
  also have "\<dots> \<longleftrightarrow> 50 * n < c"
    by (simp only: of_nat_less_iff)
  finally show ?thesis
    using False by (simp add: below_noise_def)
qed

lemma clearly_not_black_nat:
  "clearly_not_black n e \<longleftrightarrow> (if e = 0 then n \<noteq> 0 else e < 80 * n)"
proof (cases "e = 0")
  case True
  then show ?thesis by (simp add: clearly_not_black_def)
next
  case False
  then have "(of_nat n / (of_nat e / 4) :: rat) > 5 / 100 \<longleftrightarrow> (of_nat e :: rat) < of_nat (80 * n)"
    by (simp add: field_simps)
  also have "\<dots> \<longleftrightarrow> e < 80 * n"
    by (simp only: of_nat_less_iff)
  finally show ?thesis
    using False by (simp add: clearly_not_black_def)
qed

text \<open>The loop counts over exactly every sixteenth pixel from its index on.\<close>

lemma isTileBlack_loop_sampled:
  "isTileBlack_loop data i nb ch =
     (nb + length (filter bright (sampled 16 (drop i data))),
      ch + length (sampled 16 (drop i data)))"
proof (induction data i nb ch rule: isTileBlack_loop.induct)
  case (1 data i nb ch)
  show ?case
  proof (cases "i < length data")
    case True
    then have d: "drop i data = data ! i # drop (Suc i) data"
      by (simp add: Cons_nth_drop_Suc)
    have "drop 15 (drop (Suc i) data) = drop (i + 16) data"
      by (simp add: add.commute)
    with True d "1.IH" show ?thesis
      by (subst isTileBlack_loop.simps) simp
  next
    case False
    then show ?thesis
      by (subst isTileBlack_loop.simps) simp
  qed
qed

lemma pixel_at_copy:
  "pixel_at (drawImage (createCanvas (width img) (height img)) img 0 0) x y = pixel_at img x y"
  by (simp add: pixel_at_def drawImage_def createCanvas_def)

lemma isTileBlack_eq:
  "isTileBlack True img =
     (if width img = 0 \<or> height img = 0 then Inl IndexSizeError
      else Inr (below_noise (length (filter bright (sampled 16 (image_pixels img))))
                  (length (sampled 16 (image_pixels img)))))"
  by (simp add: isTileBlack_def getImageData_def isTileBlack_loop_sampled image_pixels_def
      pixel_at_copy Let_def)
     (simp add: drawImage_def createCanvas_def)

lemma set_sampled: "set (sampled n xs) \<subseteq> set xs"
proof (induction n xs rule: sampled.induct)
  case (1 n)
  show ?case by simp
next
  case (2 n x xs)
  have "set (drop (n - 1) xs) \<subseteq> set xs"
    by (rule set_drop_subset)
  with 2 show ?case by auto
qed

lemma sampled_Nil_iff: "sampled n xs = [] \<longleftrightarrow> xs = []"
  by (cases xs) simp_all

lemma image_pixels_Nil_iff: "image_pixels img = [] \<longleftrightarrow> width img = 0 \<or> height img = 0"
  by (simp add: image_pixels_def)

lemma set_image_pixels:
  "p \<in> set (image_pixels img) \<Longrightarrow> \<exists>x y. x < width img \<and> y < height img \<and> p = px img x y"
proof -
  assume "p \<in> set (image_pixels img)"
  then obtain k where k: "k < width img * height img"
    and p: "p = pixel_at img (k mod width img) (k div width img)"
    by (auto simp: image_pixels_def)
  from k have w: "0 < width img"
    by (cases "width img") simp_all
  then have x: "k mod width img < width img"
    by simp
  from k have y: "k div width img < height img"
    by (simp add: less_mult_imp_div_less mult.commute)
  from p x y have "p = px img (k mod width img) (k div width img)"
    by (simp add: pixel_at_def)
  with x y show ?thesis by blast
qed

text \<open>
  Claim C5, as the code has it. The classifier looks at every sixteenth pixel of the
  image only (the first, the seventeenth, ... in row-major order): whenever more than
  2% of those sampled pixels have a red, green or blue value above 25, the image is
  classified non-blank. (Without a 2D context the answer is non-blank as well.)
\<close>

theorem isTileBlack_sampled_bright:
  assumes "2 * length (sampled 16 (image_pixels img))
             < 100 * length (filter bright (sampled 16 (image_pixels img)))"
  shows "isTileBlack ctx img = Inr False"
proof (cases ctx)
  case False
  then show ?thesis by (simp add: isTileBlack_def)
next
  case True
  from assms have "sampled 16 (image_pixels img) \<noteq> []"
    by auto
  then have "\<not> (width img = 0 \<or> height img = 0)"
    by (simp add: sampled_Nil_iff image_pixels_Nil_iff)
  moreover from assms have
    "\<not> below_noise (length (filter bright (sampled 16 (image_pixels img))))
         (length (sampled 16 (image_pixels img)))"
    by (simp add: below_noise_nat)
  ultimately show ?thesis
    using True by (simp add: isTileBlack_eq)
qed

lemma white_pixel_tile_pixels: "image_pixels white_pixel_tile = [white]"
  by (simp add: image_pixels_def white_pixel_tile_def pixel_at_def)

lemma bright_white: "bright white"
  by (simp add: bright_def white_def thresh_def)

lemma not_bright_black: "\<not> bright black"
  by (simp add: bright_def black_def thresh_def)

theorem isTileBlack_sampled_bright_witness:
  "2 * length (sampled 16 (image_pixels white_pixel_tile))
     < 100 * length (filter bright (sampled 16 (image_pixels white_pixel_tile)))
   \<and> isTileBlack True white_pixel_tile = Inr False"
proof -
  have h: "2 * length (sampled 16 (image_pixels white_pixel_tile))
             < 100 * length (filter bright (sampled 16 (image_pixels white_pixel_tile)))"
    by (simp add: white_pixel_tile_pixels bright_white)
  from isTileBlack_sampled_bright [OF h, of True] h show ?thesis
    by (rule conjI [rotated])
qed

text \<open>
  The claim as the specification words it, over all pixels, fails: in a tile of four by
  four pixels with one dark corner, 15 of the 16 pixels are bright, the only pixel that
  the stride reads is the dark one, and the tile is classified blank.
\<close>

lemma dark_corner_tile_pixels:
  "image_pixels dark_corner_tile =
     [black, white, white, white, white, white, white, white,
      white, white, white, white, white, white, white, white]"
  by (simp add: image_pixels_def dark_corner_tile_def pixel_at_def upt_rec)

theorem isTileBlack_bright_unsampled:
  "2 * length (image_pixels dark_corner_tile)
     < 100 * length (filter bright (image_pixels dark_corner_tile))
   \<and> isTileBlack True dark_corner_tile = Inr True"
proof -
  have "isTileBlack True dark_corner_tile = Inr True"
    by (simp add: isTileBlack_eq dark_corner_tile_pixels not_bright_black below_noise_nat)
       (simp add: dark_corner_tile_def)
  then show ?thesis
    by (simp add: dark_corner_tile_pixels bright_white not_bright_black)
qed

text \<open>
  Claim C6, as the code has it. An image of positive width and height whose pixels all
  have red, green and blue 0 is classified blank, whenever the classifier gets its 2D
  context.
\<close>

theorem isTileBlack_all_black:
  assumes "0 < width img" and "0 < height img"
    and "\<forall>x < width img. \<forall>y < height img.
           red (px img x y) = 0 \<and> green (px img x y) = 0 \<and> blue (px img x y) = 0"
  shows "isTileBlack True img = Inr True"
proof -
  have dark: "\<not> bright p" if "p \<in> set (sampled 16 (image_pixels img))" for p
  proof -
    from that have "p \<in> set (image_pixels img)"
      by (rule subsetD [OF set_sampled])
    then have "\<exists>x y. x < width img \<and> y < height img \<and> p = px img x y"
      by (rule set_image_pixels)
    then obtain x y where "x < width img" "y < height img" "p = px img x y"
      by blast
    with assms(3) have "red p = 0 \<and> green p = 0 \<and> blue p = 0"
      by simp
    then show ?thesis
      by (simp add: bright_def thresh_def)
  qed
  then have "filter bright (sampled 16 (image_pixels img)) = []"
    by (simp add: filter_empty_conv)
  moreover have "sampled 16 (image_pixels img) \<noteq> []"
    using assms(1,2) by (simp add: sampled_Nil_iff image_pixels_Nil_iff)
  ultimately show ?thesis
    using assms(1,2) by (simp add: isTileBlack_eq below_noise_nat)
qed

theorem isTileBlack_all_black_witness:
  "0 < width black_pixel_tile \<and> 0 < height black_pixel_tile
   \<and> isTileBlack True black_pixel_tile = Inr True"
proof -
  have w: "0 < width black_pixel_tile" and h: "0 < height black_pixel_tile"
    by (simp_all add: black_pixel_tile_def)
  have z: "\<forall>x < width black_pixel_tile. \<forall>y < height black_pixel_tile.
             red (px black_pixel_tile x y) = 0 \<and> green (px black_pixel_tile x y) = 0
             \<and> blue (px black_pixel_tile x y) = 0"
    by (simp add: black_pixel_tile_def black_def)
  from isTileBlack_all_black [OF w h z] w h show ?thesis
    by simp
qed

text \<open>
  On an image without pixels the claim fails: no pixel has a channel above 0, and the
  classifier does not answer blank. (\<^verbatim>\<open>getImageData\<close> throws on it; were it to return
  an empty array, \<^verbatim>\<open>0 / 0 < 0.02\<close> would be false.)
\<close>

theorem isTileBlack_empty_tile: "isTileBlack True empty_tile \<noteq> Inr True"
  by (simp add: isTileBlack_eq empty_tile_def)

section \<open>The Grid Scheduler\<close>

declare run_workers.simps [simp del]

lemma length_tileCoords: "length (tileCoords g) = gx g * gy g"
  by (simp add: tileCoords_def length_concat comp_def sum_list_triv)

lemma worker_turn_fed: "fed (worker_turn panoId z s)"
  by (cases "queue s") (simp_all add: worker_turn_def fed_def)

lemma worker_turn_frame:
  "emitted (worker_turn panoId z s) = emitted s"
  "loadedTiles (worker_turn panoId z s) = loadedTiles s"
  "images (worker_turn panoId z s) = images s"
  "pending (worker_turn panoId z s) = pending s"
  "set (queue (worker_turn panoId z s)) \<union> set (inflight (worker_turn panoId z s))
     = set (queue s) \<union> set (inflight s)"
  by (cases "queue s"; simp add: worker_turn_def pending_def; blast?)+

lemma worker_turns_frame:
  "emitted ((worker_turn panoId z ^^ n) s) = emitted s"
  "loadedTiles ((worker_turn panoId z ^^ n) s) = loadedTiles s"
  "images ((worker_turn panoId z ^^ n) s) = images s"
  "pending ((worker_turn panoId z ^^ n) s) = pending s"
  "set (queue ((worker_turn panoId z ^^ n) s)) \<union> set (inflight ((worker_turn panoId z ^^ n) s))
     = set (queue s) \<union> set (inflight s)"
  by (induction n; simp add: worker_turn_frame)+

lemma worker_turns_fed: "0 < n \<Longrightarrow> fed ((worker_turn panoId z ^^ n) s)"
  by (cases n) (simp_all add: worker_turn_fed)

lemma set_without_nth:
  "i < length xs \<Longrightarrow> insert (xs ! i) (set (take i xs @ drop (Suc i) xs)) = set xs"
proof -
  assume "i < length xs"
  then have "xs = take i xs @ xs ! i # drop (Suc i) xs"
    by (rule id_take_nth_drop)
  then have "set xs = set (take i xs @ xs ! i # drop (Suc i) xs)"
    by simp
  then show ?thesis by simp
qed

text \<open>What one settled tile changes.\<close>

lemma tile_settles_effect:
  fixes env panoId z totalTiles k s
  assumes "inflight s \<noteq> []"
  defines "c \<equiv> inflight s ! (k mod length (inflight s))"
  defines "s' \<equiv> tile_settles env panoId z totalTiles k s"
  shows "emitted s' = emitted s @ [\<lparr>loaded = loadedTiles s + 1, total = totalTiles\<rparr>]"
    and "loadedTiles s' = loadedTiles s + 1"
    and "images s' = (images s)(c := Some (tile_result env panoId z c))"
    and "Suc (pending s') = pending s"
    and "insert c (set (queue s') \<union> set (inflight s')) = set (queue s) \<union> set (inflight s)"
    and "fed s'"
proof -
  let ?i = "k mod length (inflight s)"
  let ?t = "processTile_settled env panoId z totalTiles c
              (s\<lparr>inflight := take ?i (inflight s) @ drop (Suc ?i) (inflight s)\<rparr>)"
  have i: "?i < length (inflight s)"
    using assms(1) by simp
  have s': "s' = worker_turn panoId z ?t"
    by (simp add: s'_def c_def tile_settles_def Let_def)
  show "emitted s' = emitted s @ [\<lparr>loaded = loadedTiles s + 1, total = totalTiles\<rparr>]"
    by (simp add: s' worker_turn_frame processTile_settled_def)
  show "loadedTiles s' = loadedTiles s + 1"
    by (simp add: s' worker_turn_frame processTile_settled_def)
  show "images s' = (images s)(c := Some (tile_result env panoId z c))"
    by (simp add: s' worker_turn_frame processTile_settled_def)
  have "pending ?t = length (queue s) + (length (inflight s) - 1)"
    using i by (simp add: pending_def processTile_settled_def)
  moreover have "pending s = length (queue s) + length (inflight s)"
    by (simp add: pending_def)
  ultimately show "Suc (pending s') = pending s"
    using i by (simp add: s' worker_turn_frame)
  have "set (queue s') \<union> set (inflight s')
          = set (queue s) \<union> set (take ?i (inflight s) @ drop (Suc ?i) (inflight s))"
    by (simp add: s' worker_turn_frame processTile_settled_def)
  moreover have "insert c (set (take ?i (inflight s) @ drop (Suc ?i) (inflight s))) = set (inflight s)"
    unfolding c_def using i by (rule set_without_nth)
  ultimately show "insert c (set (queue s') \<union> set (inflight s')) = set (queue s) \<union> set (inflight s)"
    by blast
  show "fed s'"
    by (simp add: s' worker_turn_fed)
qed

lemma upt_from_one: "[1..<Suc (Suc n)] = 1 # map Suc [1..<Suc n]"
proof -
  have "map Suc [1..<Suc n] = [2..<Suc (Suc n)]"
    by (simp only: map_Suc_upt) (simp add: numeral_2_eq_2)
  moreover have "[1..<Suc (Suc n)] = 1 # [2..<Suc (Suc n)]"
    by (simp add: upt_conv_Cons numeral_2_eq_2 del: upt_Suc)
  ultimately show ?thesis by simp
qed

lemma progress_steps:
  "f (Suc m) # map (\<lambda>k. f (Suc m + k)) [1..<Suc n] = map (\<lambda>k. f (m + k)) [1..<Suc (Suc n)]"
  by (simp only: upt_from_one) (simp add: comp_def)

text \<open>
  Whatever the order of completion, the workers emit one progress value for every tile
  that had not settled, counting up by one.
\<close>

lemma run_workers_emitted:
  "fed s \<Longrightarrow>
   emitted (run_workers env panoId z totalTiles schedule s)
     = emitted s @ map (\<lambda>k. \<lparr>loaded = loadedTiles s + k, total = totalTiles\<rparr>) [1..<Suc (pending s)]"
proof (induction env panoId z totalTiles schedule s rule: run_workers.induct)
  case (1 env panoId z totalTiles schedule s)
  show ?case
  proof (cases "inflight s = []")
    case True
    with "1.prems" have "pending s = 0"
      by (simp add: fed_def pending_def)
    with True show ?thesis
      by (subst run_workers.simps) simp
  next
    case False
    let ?s' = "tile_settles env panoId z totalTiles (case schedule of [] \<Rightarrow> 0 | k # _ \<Rightarrow> k) s"
    note eff = tile_settles_effect [OF False, where env = env and panoId = panoId and z = z
        and totalTiles = totalTiles and k = "case schedule of [] \<Rightarrow> 0 | k # _ \<Rightarrow> k"]
    have n: "pending s = Suc (pending ?s')"
      using eff(4) by simp
    have "emitted (run_workers env panoId z totalTiles (tl schedule) ?s')
            = emitted ?s' @ map (\<lambda>k. \<lparr>loaded = loadedTiles ?s' + k, total = totalTiles\<rparr>)
                               [1..<Suc (pending ?s')]"
      using "1.IH" [OF False eff(6)] .
    also have "\<dots> = emitted s @ \<lparr>loaded = Suc (loadedTiles s), total = totalTiles\<rparr>
                 # map (\<lambda>k. \<lparr>loaded = Suc (loadedTiles s) + k, total = totalTiles\<rparr>) [1..<Suc (pending ?s')]"
      by (simp add: eff(1) eff(2) del: upt_Suc)
    also have "\<dots> = emitted s @ map (\<lambda>k. \<lparr>loaded = loadedTiles s + k, total = totalTiles\<rparr>)
                                  [1..<Suc (pending s)]"
      unfolding n
      by (simp only: progress_steps [of "\<lambda>k. \<lparr>loaded = k, total = totalTiles\<rparr>"])
    finally show ?thesis
      using False by (subst run_workers.simps) simp
  qed
qed

text \<open>Every tile that had not settled ends with its result stored at its coordinate.\<close>

lemma run_workers_images:
  "fed s \<Longrightarrow>
   images (run_workers env panoId z totalTiles schedule s) coord
     = (if coord \<in> set (queue s) \<union> set (inflight s) then Some (tile_result env panoId z coord)
        else images s coord)"
proof (induction env panoId z totalTiles schedule s rule: run_workers.induct)
  case (1 env panoId z totalTiles schedule s)
  show ?case
  proof (cases "inflight s = []")
    case True
    with "1.prems" have "queue s = []"
      by (simp add: fed_def)
    with True show ?thesis
      by (subst run_workers.simps) simp
  next
    case False
    let ?s' = "tile_settles env panoId z totalTiles (case schedule of [] \<Rightarrow> 0 | k # _ \<Rightarrow> k) s"
    let ?c = "inflight s ! ((case schedule of [] \<Rightarrow> 0 | k # _ \<Rightarrow> k) mod length (inflight s))"
    note eff = tile_settles_effect [OF False, where env = env and panoId = panoId and z = z
        and totalTiles = totalTiles and k = "case schedule of [] \<Rightarrow> 0 | k # _ \<Rightarrow> k"]
    have "images (run_workers env panoId z totalTiles (tl schedule) ?s') coord
            = (if coord \<in> set (queue ?s') \<union> set (inflight ?s')
               then Some (tile_result env panoId z coord) else images ?s' coord)"
      using "1.IH" [OF False eff(6)] .
    also have "\<dots> = (if coord \<in> insert ?c (set (queue ?s') \<union> set (inflight ?s'))
                      then Some (tile_result env panoId z coord) else images s coord)"
      by (simp add: eff(3))
    also have "\<dots> = (if coord \<in> set (queue s) \<union> set (inflight s)
                      then Some (tile_result env panoId z coord) else images s coord)"
      by (simp only: eff(5))
    finally show ?thesis
      using False by (subst run_workers.simps) simp
  qed
qed

lemma stitch_supported:
  fixes env schedule panoId z g
  assumes "find (\<lambda>g. zoom g = z) GRID_SIZES = Some g"
  defines "s \<equiv> run_workers env panoId z (length (tileCoords g)) schedule
                  ((worker_turn panoId z ^^ CONCURRENT_DOWNLOADS) (start_job g))"
  shows "progress_log (stitchStreetViewImage env schedule panoId z) = emitted s"
    and "tiles (stitchStreetViewImage env schedule panoId z) = images s"
    and "outcome (stitchStreetViewImage env schedule panoId z) =
           (if \<not> compositorContext env then Inl RenderingUnavailable
            else
              (case cropBlackEdges (cropperContext env) (croppedContext env)
                      (composite g (images s)) of
                 Inl e \<Rightarrow> Inl e
               | Inr croppedCanvas \<Rightarrow>
                   (case removeHorizontalWrap (wrapContext env) (wrappedContext env)
                           croppedCanvas of
                      Inl e \<Rightarrow> Inl e
                    | Inr finalCanvas \<Rightarrow> Inr (toDataURL env finalCanvas))))"
  using assms(1) by (simp_all add: stitchStreetViewImage_def Let_def s_def)

lemma stitch_progress_log:
  assumes "find (\<lambda>g. zoom g = z) GRID_SIZES = Some g"
  shows "progress_log (stitchStreetViewImage env schedule panoId z)
           = map (\<lambda>k. \<lparr>loaded = k, total = gx g * gy g\<rparr>) [0..<Suc (gx g * gy g)]"
proof -
  let ?T = "length (tileCoords g)"
  let ?s0 = "(worker_turn panoId z ^^ CONCURRENT_DOWNLOADS) (start_job g)"
  have fed: "fed ?s0"
    by (rule worker_turns_fed) (simp add: CONCURRENT_DOWNLOADS_def)
  have e: "emitted ?s0 = [\<lparr>loaded = 0, total = ?T\<rparr>]" and l: "loadedTiles ?s0 = 0"
    by (simp_all add: worker_turns_frame start_job_def)
  have p: "pending ?s0 = ?T"
    by (simp only: worker_turns_frame) (simp add: start_job_def pending_def)
  have "progress_log (stitchStreetViewImage env schedule panoId z)
          = emitted (run_workers env panoId z ?T schedule ?s0)"
    using assms by (rule stitch_supported(1))
  also have "\<dots> = \<lparr>loaded = 0, total = ?T\<rparr> # map (\<lambda>k. \<lparr>loaded = k, total = ?T\<rparr>) [1..<Suc ?T]"
    by (simp only: run_workers_emitted [OF fed] e l p) simp
  also have "\<dots> = map (\<lambda>k. \<lparr>loaded = k, total = ?T\<rparr>) [0..<Suc ?T]"
    by (simp add: upt_conv_Cons del: upt_Suc)
  finally show ?thesis
    by (simp only: length_tileCoords)
qed

lemma stitch_tiles:
  assumes "find (\<lambda>g. zoom g = z) GRID_SIZES = Some g"
  shows "tiles (stitchStreetViewImage env schedule panoId z) coord
           = (if coord \<in> set (tileCoords g) then Some (tile_result env panoId z coord) else None)"
proof -
  let ?T = "length (tileCoords g)"
  let ?s0 = "(worker_turn panoId z ^^ CONCURRENT_DOWNLOADS) (start_job g)"
  have fed: "fed ?s0"
    by (rule worker_turns_fed) (simp add: CONCURRENT_DOWNLOADS_def)
  have i: "images ?s0 = (\<lambda>coord. None)"
    and q: "set (queue ?s0) \<union> set (inflight ?s0) = set (tileCoords g)"
    by (simp_all add: worker_turns_frame start_job_def)
  have "tiles (stitchStreetViewImage env schedule panoId z)
          = images (run_workers env panoId z ?T schedule ?s0)"
    using assms by (rule stitch_supported(2))
  then show ?thesis
    by (simp only: run_workers_images [OF fed] i q)
qed


text \<open>
  Claim C1. On a supported zoom level, whatever the network does and in whatever order
  the tiles settle, the values passed to \<^verbatim>\<open>onProgress\<close> are exactly
  \<open>{0, total}, {1, total}, ..., {total, total}\<close> with \<open>total = columns * rows\<close>: the
  first is \<open>{0, total}\<close>, there is one more for every tile, \<open>loaded\<close> never decreases
  and never exceeds \<open>total\<close>, and the last is \<open>{total, total}\<close>. Every single
  settling of a tile, whatever its result, emits exactly one more value.
\<close>

theorem stitch_progress_sequence:
  fixes env schedule panoId z g
  assumes "find (\<lambda>g. zoom g = z) GRID_SIZES = Some g"
  defines "ps \<equiv> progress_log (stitchStreetViewImage env schedule panoId z)"
  defines "n \<equiv> gx g * gy g"
  shows "ps = map (\<lambda>k. \<lparr>loaded = k, total = n\<rparr>) [0..<Suc n]
         \<and> hd ps = \<lparr>loaded = 0, total = n\<rparr>
         \<and> last ps = \<lparr>loaded = n, total = n\<rparr>
         \<and> length ps = Suc (length (tileCoords g))
         \<and> sorted (map loaded ps)
         \<and> (\<forall>p \<in> set ps. loaded p \<le> total p \<and> total p = n)
         \<and> (\<forall>s k. inflight s \<noteq> [] \<longrightarrow>
                emitted (tile_settles env panoId z n k s)
                  = emitted s @ [\<lparr>loaded = loadedTiles s + 1, total = n\<rparr>])"
proof -
  have ps: "ps = map (\<lambda>k. \<lparr>loaded = k, total = n\<rparr>) [0..<Suc n]"
    unfolding ps_def n_def using assms(1) by (rule stitch_progress_log)
  have "hd ps = \<lparr>loaded = 0, total = n\<rparr>"
    by (simp add: ps hd_map del: upt_Suc)
  moreover have "last ps = \<lparr>loaded = n, total = n\<rparr>"
    by (simp add: ps)
  moreover have "length ps = Suc (length (tileCoords g))"
    by (simp add: ps length_tileCoords n_def)
  moreover have "map loaded ps = [0..<Suc n]"
    by (simp add: ps comp_def del: upt_Suc)
  then have "sorted (map loaded ps)"
    by (simp only: sorted_upt)
  moreover have "\<forall>p \<in> set ps. loaded p \<le> total p \<and> total p = n"
    by (auto simp: ps)
  moreover have "\<forall>s k. inflight s \<noteq> [] \<longrightarrow>
                   emitted (tile_settles env panoId z n k s)
                     = emitted s @ [\<lparr>loaded = loadedTiles s + 1, total = n\<rparr>]"
    using tile_settles_effect(1) by blast
  ultimately show ?thesis
    using ps by blast
qed

theorem stitch_progress_sequence_witness:
  "find (\<lambda>g. zoom g = 3) GRID_SIZES = Some \<lparr>zoom = 3, gx = 8, gy = 4\<rparr>
   \<and> progress_log (stitchStreetViewImage offline_browser [5, 0, 7] ''pano'' 3)
       = map (\<lambda>k. \<lparr>loaded = k, total = 32\<rparr>) [0..<Suc 32]
   \<and> last (progress_log (stitchStreetViewImage offline_browser [5, 0, 7] ''pano'' 3))
       = \<lparr>loaded = 32, total = 32\<rparr>"
proof -
  have h: "find (\<lambda>g. zoom g = 3) GRID_SIZES = Some \<lparr>zoom = 3, gx = 8, gy = 4\<rparr>"
    by (simp add: GRID_SIZES_def)
  have n: "gx \<lparr>zoom = 3, gx = 8, gy = 4\<rparr> * gy \<lparr>zoom = 3, gx = 8, gy = 4\<rparr> = 32"
    by simp
  from stitch_progress_sequence [OF h, of offline_browser "[5, 0, 7]" "''pano''"]
  have "progress_log (stitchStreetViewImage offline_browser [5, 0, 7] ''pano'' 3)
          = map (\<lambda>k. \<lparr>loaded = k, total = 32\<rparr>) [0..<Suc 32]
        \<and> last (progress_log (stitchStreetViewImage offline_browser [5, 0, 7] ''pano'' 3))
          = \<lparr>loaded = 32, total = 32\<rparr>"
    unfolding n by blast
  with h show ?thesis
    by (rule conjI)
qed

text \<open>
  Claim C3. For a zoom level that is not in the catalog the job fails with the
  invalid-zoom error at once: no tile has been requested, no progress value has been
  emitted, and nothing has been stored.
\<close>

theorem stitch_invalid_zoom:
  assumes "z \<notin> set (map zoom GRID_SIZES)"
  shows "stitchStreetViewImage env schedule panoId z =
           \<lparr>outcome = Inl (InvalidZoom z), progress_log = [], requests = [],
            tiles = (\<lambda>coord. None)\<rparr>"
proof -
  from assms have "find (\<lambda>g. zoom g = z) GRID_SIZES = None"
    by (simp add: GRID_SIZES_def)
  then show ?thesis
    by (simp add: stitchStreetViewImage_def)
qed

theorem stitch_invalid_zoom_witness:
  "99 \<notin> set (map zoom GRID_SIZES)
   \<and> outcome (stitchStreetViewImage offline_browser [] ''pano'' 99) = Inl (InvalidZoom 99)
   \<and> progress_log (stitchStreetViewImage offline_browser [] ''pano'' 99) = []
   \<and> requests (stitchStreetViewImage offline_browser [] ''pano'' 99) = []"
proof -
  have h: "99 \<notin> set (map zoom GRID_SIZES)"
    by (simp add: GRID_SIZES_def)
  from stitch_invalid_zoom [OF h, of offline_browser "[]" "''pano''"]
  have "outcome (stitchStreetViewImage offline_browser [] ''pano'' 99) = Inl (InvalidZoom 99)
        \<and> progress_log (stitchStreetViewImage offline_browser [] ''pano'' 99) = []
        \<and> requests (stitchStreetViewImage offline_browser [] ''pano'' 99) = []"
    by simp
  with h show ?thesis
    by (rule conjI)
qed

section \<open>The Border Cropper\<close>

declare isLineBlack_loop.simps [simp del] scan_forward.simps [simp del]
  scan_backward.simps [simp del]

text \<open>A line without a bright pixel is black; a line of bright pixels only is not.\<close>

lemma isLineBlack_loop_dark:
  "(\<forall>j < length data. \<not> bright (data ! j)) \<Longrightarrow> i < length data \<or> 0 < checked \<Longrightarrow>
   isLineBlack_loop extent data i 0 checked"
proof (induction extent data i "0 :: nat" checked rule: isLineBlack_loop.induct)
  case (1 extent data i checked)
  show ?case
  proof (cases "i < length data")
    case True
    with "1.prems" have "\<not> bright (data ! i)" by simp
    with True "1.hyps"(2) "1.prems" show ?thesis
      by (subst isLineBlack_loop.simps) simp
  next
    case False
    with "1.prems" show ?thesis
      by (subst isLineBlack_loop.simps) (simp add: below_noise_nat)
  qed
qed

lemma isLineBlack_loop_bright:
  "(\<forall>j < length data. bright (data ! j)) \<Longrightarrow> checked \<le> nonBlack \<Longrightarrow>
   \<not> isLineBlack_loop extent data i nonBlack checked"
proof (induction extent data i nonBlack checked rule: isLineBlack_loop.induct)
  case (1 extent data i nonBlack checked)
  show ?case
  proof (cases "i < length data")
    case True
    with "1.prems" have b: "bright (data ! i)" by simp
    show ?thesis
    proof (cases "clearly_not_black (nonBlack + 1) extent")
      case True
      with \<open>i < length data\<close> b show ?thesis
        by (subst isLineBlack_loop.simps) simp
    next
      case False
      with \<open>i < length data\<close> b "1.IH"(1) "1.prems" show ?thesis
        by (subst isLineBlack_loop.simps) simp
    qed
  next
    case False
    with "1.prems" show ?thesis
      by (subst isLineBlack_loop.simps) (simp add: below_noise_nat)
  qed
qed

lemma row_data:
  "map (\<lambda>k. pixel_at c (k mod w) (y + k div w)) [0..<w] = map (\<lambda>x. pixel_at c x y) [0..<w]"
  by (rule map_cong [OF refl]) simp

lemma isRowBlack_Inr:
  "0 < width c \<Longrightarrow>
   isRowBlack c y = Inr (isLineBlack_loop (width c) (map (\<lambda>x. pixel_at c x y) [0..<width c]) 0 0 0)"
  by (simp add: isRowBlack_def getImageData_def row_data)

lemma isColBlack_Inr:
  "0 < height c \<Longrightarrow>
   isColBlack c x = Inr (isLineBlack_loop (height c) (map (\<lambda>y. pixel_at c x y) [0..<height c]) 0 0 0)"
  by (simp add: isColBlack_def getImageData_def)

lemma isRowBlack_rowBlack: "0 < width c \<Longrightarrow> isRowBlack c y = Inr (rowBlack c y)"
  by (simp add: rowBlack_def isRowBlack_Inr)

lemma isColBlack_colBlack: "0 < height c \<Longrightarrow> isColBlack c x = Inr (colBlack c x)"
  by (simp add: colBlack_def isColBlack_Inr)

lemma rowBlack_dark:
  "0 < width c \<Longrightarrow> (\<forall>x < width c. \<not> bright (pixel_at c x y)) \<Longrightarrow> rowBlack c y"
  by (simp add: rowBlack_def isRowBlack_Inr isLineBlack_loop_dark)

lemma colBlack_dark:
  "0 < height c \<Longrightarrow> (\<forall>y < height c. \<not> bright (pixel_at c x y)) \<Longrightarrow> colBlack c x"
  by (simp add: colBlack_def isColBlack_Inr isLineBlack_loop_dark)

lemma rowBlack_bright:
  "0 < width c \<Longrightarrow> (\<forall>x < width c. bright (pixel_at c x y)) \<Longrightarrow> \<not> rowBlack c y"
  by (simp add: rowBlack_def isRowBlack_Inr isLineBlack_loop_bright)

lemma colBlack_bright:
  "0 < height c \<Longrightarrow> (\<forall>y < height c. bright (pixel_at c x y)) \<Longrightarrow> \<not> colBlack c x"
  by (simp add: colBlack_def isColBlack_Inr isLineBlack_loop_bright)

text \<open>
  Where a scan stops: at the first line that is not black, or one past the other bound.
\<close>

lemma scan_forward_result:
  "(\<forall>y. isBlack y = Inr (p y)) \<Longrightarrow>
   \<exists>r. scan_forward isBlack lo hi = Inr r \<and> lo \<le> r \<and> (r \<le> hi + 1 \<or> r = lo)
       \<and> (\<forall>y. lo \<le> y \<and> y < r \<longrightarrow> p (nat y)) \<and> (r \<le> hi \<longrightarrow> \<not> p (nat r))"
proof (induction isBlack lo hi rule: scan_forward.induct)
  case (1 isBlack lo hi)
  show ?case
  proof (cases "lo \<le> hi \<and> p (nat lo)")
    case True
    with "1.prems" have "isBlack (nat lo) = Inr True" by simp
    with True "1.IH" "1.prems" obtain r where
      r: "scan_forward isBlack (lo + 1) hi = Inr r" "lo + 1 \<le> r" "r \<le> hi + 1 \<or> r = lo + 1"
         "\<forall>y. lo + 1 \<le> y \<and> y < r \<longrightarrow> p (nat y)" "r \<le> hi \<longrightarrow> \<not> p (nat r)"
      by blast
    have "\<forall>y. lo \<le> y \<and> y < r \<longrightarrow> p (nat y)"
    proof (intro allI impI)
      fix y assume "lo \<le> y \<and> y < r"
      then have "y = lo \<or> (lo + 1 \<le> y \<and> y < r)" by auto
      with True r(4) show "p (nat y)" by auto
    qed
    moreover have "scan_forward isBlack lo hi = Inr r"
      using True \<open>isBlack (nat lo) = Inr True\<close> r(1) by (subst scan_forward.simps) simp
    ultimately show ?thesis
      using r True by auto
  next
    case False
    then have "scan_forward isBlack lo hi = Inr lo"
      using "1.prems" by (subst scan_forward.simps) simp
    with False show ?thesis by auto
  qed
qed

lemma scan_backward_result:
  "(\<forall>y. isBlack y = Inr (p y)) \<Longrightarrow>
   \<exists>r. scan_backward isBlack hi lo = Inr r \<and> r \<le> hi \<and> (lo - 1 \<le> r \<or> r = hi)
       \<and> (\<forall>y. r < y \<and> y \<le> hi \<longrightarrow> p (nat y)) \<and> (lo \<le> r \<longrightarrow> \<not> p (nat r))"
proof (induction isBlack hi lo rule: scan_backward.induct)
  case (1 isBlack hi lo)
  show ?case
  proof (cases "lo \<le> hi \<and> p (nat hi)")
    case True
    with "1.prems" have "isBlack (nat hi) = Inr True" by simp
    with True "1.IH" "1.prems" obtain r where
      r: "scan_backward isBlack (hi - 1) lo = Inr r" "r \<le> hi - 1" "lo - 1 \<le> r \<or> r = hi - 1"
         "\<forall>y. r < y \<and> y \<le> hi - 1 \<longrightarrow> p (nat y)" "lo \<le> r \<longrightarrow> \<not> p (nat r)"
      by blast
    have "\<forall>y. r < y \<and> y \<le> hi \<longrightarrow> p (nat y)"
    proof (intro allI impI)
      fix y assume "r < y \<and> y \<le> hi"
      then have "y = hi \<or> (r < y \<and> y \<le> hi - 1)" by auto
      with True r(4) show "p (nat y)" by auto
    qed
    moreover have "scan_backward isBlack hi lo = Inr r"
      using True \<open>isBlack (nat hi) = Inr True\<close> r(1) by (subst scan_backward.simps) simp
    ultimately show ?thesis
      using r True by auto
  next
    case False
    then have "scan_backward isBlack hi lo = Inr hi"
      using "1.prems" by (subst scan_backward.simps) simp
    with False show ?thesis by auto
  qed
qed

text \<open>
  The four bounds that \<^verbatim>\<open>cropBlackEdges\<close> finds on a canvas of positive size, and what
  it returns for them.
\<close>

lemma cropBlackEdges_scan:
  assumes "0 < width c" and "0 < height c"
  shows "\<exists>t b l r :: int.
           0 \<le> t \<and> b \<le> int (height c) - 1 \<and> 0 \<le> l \<and> r \<le> int (width c) - 1
           \<and> (t \<le> int (height c) - 1 \<longrightarrow> \<not> rowBlack c (nat t))
           \<and> (t \<le> b \<longrightarrow> \<not> rowBlack c (nat b))
           \<and> (l \<le> int (width c) - 1 \<longrightarrow> \<not> colBlack c (nat l))
           \<and> (l \<le> r \<longrightarrow> \<not> colBlack c (nat r))
           \<and> (\<forall>y. 0 \<le> y \<and> y < t \<longrightarrow> rowBlack c (nat y))
           \<and> (\<forall>y. b < y \<and> y \<le> int (height c) - 1 \<longrightarrow> rowBlack c (nat y))
           \<and> (\<forall>x. 0 \<le> x \<and> x < l \<longrightarrow> colBlack c (nat x))
           \<and> (\<forall>x. r < x \<and> x \<le> int (width c) - 1 \<longrightarrow> colBlack c (nat x))
           \<and> cropBlackEdges True cctx c =
               (if t > b \<or> l > r then Inr c
                else if t = 0 \<and> b = int (height c) - 1 \<and> l = 0 \<and> r = int (width c) - 1
                then Inr c
                else if cctx
                then Inr (crop_region c (nat l) (nat t) (nat (r - l + 1)) (nat (b - t + 1)))
                else Inr c)"
proof -
  let ?w = "int (width c)" and ?h = "int (height c)"
  have rows: "\<forall>y. isRowBlack c y = Inr (rowBlack c y)"
    using assms(1) by (simp add: isRowBlack_rowBlack)
  have cols: "\<forall>x. isColBlack c x = Inr (colBlack c x)"
    using assms(2) by (simp add: isColBlack_colBlack)
  from scan_forward_result [OF rows, of 0 "?h - 1"] obtain t where
    t: "scan_forward (isRowBlack c) 0 (?h - 1) = Inr t" "0 \<le> t"
       "\<forall>y. 0 \<le> y \<and> y < t \<longrightarrow> rowBlack c (nat y)" "t \<le> ?h - 1 \<longrightarrow> \<not> rowBlack c (nat t)"
    by blast
  from scan_backward_result [OF rows, of "?h - 1" t] obtain b where
    b: "scan_backward (isRowBlack c) (?h - 1) t = Inr b" "b \<le> ?h - 1"
       "\<forall>y. b < y \<and> y \<le> ?h - 1 \<longrightarrow> rowBlack c (nat y)" "t \<le> b \<longrightarrow> \<not> rowBlack c (nat b)"
    by blast
  from scan_forward_result [OF cols, of 0 "?w - 1"] obtain l where
    l: "scan_forward (isColBlack c) 0 (?w - 1) = Inr l" "0 \<le> l"
       "\<forall>x. 0 \<le> x \<and> x < l \<longrightarrow> colBlack c (nat x)" "l \<le> ?w - 1 \<longrightarrow> \<not> colBlack c (nat l)"
    by blast
  from scan_backward_result [OF cols, of "?w - 1" l] obtain r where
    r: "scan_backward (isColBlack c) (?w - 1) l = Inr r" "r \<le> ?w - 1"
       "\<forall>x. r < x \<and> x \<le> ?w - 1 \<longrightarrow> colBlack c (nat x)" "l \<le> r \<longrightarrow> \<not> colBlack c (nat r)"
    by blast
  have "cropBlackEdges True cctx c =
          (if t > b \<or> l > r then Inr c
           else if t = 0 \<and> b = ?h - 1 \<and> l = 0 \<and> r = ?w - 1 then Inr c
           else if cctx
           then Inr (crop_region c (nat l) (nat t) (nat (r - l + 1)) (nat (b - t + 1)))
           else Inr c)"
    by (simp add: cropBlackEdges_def Let_def t(1) b(1) l(1) r(1) crop_region_def)
  with t b l r show ?thesis
    by blast
qed

lemma crop_region_simps:
  "width (crop_region c l t w h) = w"
  "height (crop_region c l t w h) = h"
  "pixel_at (crop_region c l t w h) x y
     = (if x < w \<and> y < h then pixel_at c (l + x) (t + y) else transparent)"
  by (simp_all add: crop_region_def drawImageRegion_def createCanvas_def pixel_at_def)

lemma cropBlackEdges_frame:
  assumes "0 < width c" and "0 < height c"
  shows "\<exists>c'. cropBlackEdges ctx cctx c = Inr c'
           \<and> (c' = c \<or> (0 < width c' \<and> 0 < height c' \<and> (\<exists>l t. subregion c' c l t)))"
proof (cases ctx)
  case False
  then show ?thesis by (simp add: cropBlackEdges_def)
next
  case True
  from cropBlackEdges_scan [OF assms, of cctx] obtain t b l r :: int where
    bounds: "0 \<le> t" "b \<le> int (height c) - 1" "0 \<le> l" "r \<le> int (width c) - 1"
    and eq: "cropBlackEdges True cctx c =
               (if t > b \<or> l > r then Inr c
                else if t = 0 \<and> b = int (height c) - 1 \<and> l = 0 \<and> r = int (width c) - 1
                then Inr c
                else if cctx
                then Inr (crop_region c (nat l) (nat t) (nat (r - l + 1)) (nat (b - t + 1)))
                else Inr c)"
    by blast
  let ?c' = "crop_region c (nat l) (nat t) (nat (r - l + 1)) (nat (b - t + 1))"
  show ?thesis
  proof (cases "cropBlackEdges True cctx c = Inr c")
    case True
    with \<open>ctx\<close> show ?thesis by simp
  next
    case False
    with eq have crop: "cropBlackEdges True cctx c = Inr ?c'" and le: "t \<le> b" "l \<le> r"
      by (auto split: if_splits)
    from le bounds have "subregion ?c' c (nat l) (nat t)"
      by (simp add: subregion_def crop_region_simps) linarith
    moreover from le have "0 < width ?c'" "0 < height ?c'"
      by (simp_all add: crop_region_simps)
    moreover from crop \<open>ctx\<close> have "cropBlackEdges ctx cctx c = Inr ?c'"
      by simp
    ultimately show ?thesis
      by blast
  qed
qed

lemma cropBlackEdges_black_rows:
  assumes "0 < width c" and "0 < height c" and "\<forall>y < height c. rowBlack c y"
  shows "cropBlackEdges ctx cctx c = Inr c"
proof (cases ctx)
  case False
  then show ?thesis by (simp add: cropBlackEdges_def)
next
  case True
  from cropBlackEdges_scan [OF assms(1,2), of cctx] obtain t b l r :: int where
    bounds: "0 \<le> t" "b \<le> int (height c) - 1"
    and t: "t \<le> int (height c) - 1 \<longrightarrow> \<not> rowBlack c (nat t)"
    and eq: "cropBlackEdges True cctx c =
               (if t > b \<or> l > r then Inr c
                else if t = 0 \<and> b = int (height c) - 1 \<and> l = 0 \<and> r = int (width c) - 1
                then Inr c
                else if cctx
                then Inr (crop_region c (nat l) (nat t) (nat (r - l + 1)) (nat (b - t + 1)))
                else Inr c)"
    by blast
  have "\<not> t \<le> int (height c) - 1"
  proof
    assume le: "t \<le> int (height c) - 1"
    with bounds have "nat t < height c" by linarith
    with assms(3) have "rowBlack c (nat t)" by simp
    with t le show False by simp
  qed
  with bounds have "t > b" by linarith
  with eq True show ?thesis by simp
qed

lemma cropBlackEdges_bright_edges:
  assumes "0 < width c" and "0 < height c"
    and "\<not> rowBlack c 0" and "\<not> rowBlack c (height c - 1)"
    and "\<not> colBlack c 0" and "\<not> colBlack c (width c - 1)"
  shows "cropBlackEdges ctx cctx c = Inr c"
proof (cases ctx)
  case False
  then show ?thesis by (simp add: cropBlackEdges_def)
next
  case True
  from cropBlackEdges_scan [OF assms(1,2), of cctx] obtain t b l r :: int where
    bounds: "0 \<le> t" "b \<le> int (height c) - 1" "0 \<le> l" "r \<le> int (width c) - 1"
    and above: "\<forall>y. 0 \<le> y \<and> y < t \<longrightarrow> rowBlack c (nat y)"
    and below: "\<forall>y. b < y \<and> y \<le> int (height c) - 1 \<longrightarrow> rowBlack c (nat y)"
    and before: "\<forall>x. 0 \<le> x \<and> x < l \<longrightarrow> colBlack c (nat x)"
    and after: "\<forall>x. r < x \<and> x \<le> int (width c) - 1 \<longrightarrow> colBlack c (nat x)"
    and eq: "cropBlackEdges True cctx c =
               (if t > b \<or> l > r then Inr c
                else if t = 0 \<and> b = int (height c) - 1 \<and> l = 0 \<and> r = int (width c) - 1
                then Inr c
                else if cctx
                then Inr (crop_region c (nat l) (nat t) (nat (r - l + 1)) (nat (b - t + 1)))
                else Inr c)"
    by blast
  have "t = 0"
  proof (rule ccontr)
    assume "t \<noteq> 0"
    with bounds have "0 \<le> (0::int) \<and> 0 < t" by simp
    with above have "rowBlack c (nat 0)" by blast
    with assms(3) show False by simp
  qed
  moreover have "b = int (height c) - 1"
  proof (rule ccontr)
    assume "b \<noteq> int (height c) - 1"
    with bounds have "b < int (height c) - 1 \<and> int (height c) - 1 \<le> int (height c) - 1" by simp
    with below have "rowBlack c (nat (int (height c) - 1))" by blast
    moreover have "nat (int (height c) - 1) = height c - 1" by simp
    ultimately show False using assms(4) by simp
  qed
  moreover have "l = 0"
  proof (rule ccontr)
    assume "l \<noteq> 0"
    with bounds have "0 \<le> (0::int) \<and> 0 < l" by simp
    with before have "colBlack c (nat 0)" by blast
    with assms(5) show False by simp
  qed
  moreover have "r = int (width c) - 1"
  proof (rule ccontr)
    assume "r \<noteq> int (width c) - 1"
    with bounds have "r < int (width c) - 1 \<and> int (width c) - 1 \<le> int (width c) - 1" by simp
    with after have "colBlack c (nat (int (width c) - 1))" by blast
    moreover have "nat (int (width c) - 1) = width c - 1" by simp
    ultimately show False using assms(6) by simp
  qed
  ultimately show ?thesis
    using eq True by simp
qed

lemma cropBlackEdges_all_bright:
  assumes "0 < width c" and "0 < height c"
    and "\<forall>x < width c. \<forall>y < height c. bright (pixel_at c x y)"
  shows "cropBlackEdges ctx cctx c = Inr c"
proof (rule cropBlackEdges_bright_edges [OF assms(1,2)])
  show "\<not> rowBlack c 0"
    using assms by (intro rowBlack_bright) simp_all
  show "\<not> rowBlack c (height c - 1)"
    using assms by (intro rowBlack_bright) simp_all
  show "\<not> colBlack c 0"
    using assms by (intro colBlack_bright) simp_all
  show "\<not> colBlack c (width c - 1)"
    using assms by (intro colBlack_bright) simp_all
qed

lemma cropBlackEdges_all_dark:
  assumes "0 < width c" and "0 < height c"
    and "\<forall>x < width c. \<forall>y < height c. \<not> bright (pixel_at c x y)"
  shows "cropBlackEdges ctx cctx c = Inr c"
proof (rule cropBlackEdges_black_rows [OF assms(1,2)])
  show "\<forall>y < height c. rowBlack c y"
    using assms by (auto intro: rowBlack_dark)
qed

lemmas crop_eval =
  cropBlackEdges_def scan_forward.simps scan_backward.simps isRowBlack_def isColBlack_def
  getImageData_def isLineBlack_loop.simps pixel_at_def bright_def thresh_def black_def white_def
  below_noise_nat clearly_not_black_nat Let_def crop_region_def drawImageRegion_def
  createCanvas_def transparent_def upt_rec

lemma diagonal_tile_cropped:
  "cropBlackEdges True True diagonal_tile = Inr (crop_region diagonal_tile 1 1 2 2)"
  by (simp add: crop_eval diagonal_tile_def)

lemma diagonal_tile_cropped_twice:
  "cropBlackEdges True True (crop_region diagonal_tile 1 1 2 2)
     = Inr (crop_region (crop_region diagonal_tile 1 1 2 2) 1 1 1 1)"
  by (simp add: crop_eval diagonal_tile_def)

lemma footer_tile_cropped:
  "cropBlackEdges True True footer_tile = Inr (crop_region footer_tile 0 4 1 1)"
  by (simp add: crop_eval footer_tile_def)

lemma thin_canvas_cropped: "cropBlackEdges True True thin_canvas = Inl IndexSizeError"
  by (simp add: crop_eval thin_canvas_def)


lemma rowBlack_has_bright:
  "0 < width c \<Longrightarrow> \<not> rowBlack c y \<Longrightarrow> \<exists>x < width c. bright (pixel_at c x y)"
  using rowBlack_dark by blast

lemma colBlack_has_bright:
  "0 < height c \<Longrightarrow> \<not> colBlack c x \<Longrightarrow> \<exists>y < height c. bright (pixel_at c x y)"
  using colBlack_dark by blast

text \<open>
  Claim C4, as the code has it. On an image of positive size whose bright pixels (some
  channel above 25) are exactly the pixels of one rectangle, which may be empty or the
  whole image, the cropper is idempotent: what it returns it returns again unchanged.
\<close>

theorem cropBlackEdges_idempotent_rectangle:
  assumes "0 < width c" and "0 < height c"
    and "\<forall>x < width c. \<forall>y < height c.
           bright (px c x y) \<longleftrightarrow> (l \<le> x \<and> x < r \<and> t \<le> y \<and> y < b)"
  shows "\<exists>c'. cropBlackEdges ctx cctx c = Inr c' \<and> cropBlackEdges ctx cctx c' = Inr c'"
proof (cases "cropBlackEdges ctx cctx c = Inr c")
  case True
  then show ?thesis by blast
next
  case False
  have ctx: ctx
  proof (rule ccontr)
    assume "\<not> ctx"
    then have "cropBlackEdges ctx cctx c = Inr c"
      by (simp add: cropBlackEdges_def)
    with False show False by simp
  qed
  from cropBlackEdges_scan [OF assms(1,2), of cctx] obtain T B L R :: int where
    bounds: "0 \<le> T" "B \<le> int (height c) - 1" "0 \<le> L" "R \<le> int (width c) - 1"
    and T: "T \<le> int (height c) - 1 \<longrightarrow> \<not> rowBlack c (nat T)"
    and B: "T \<le> B \<longrightarrow> \<not> rowBlack c (nat B)"
    and L: "L \<le> int (width c) - 1 \<longrightarrow> \<not> colBlack c (nat L)"
    and R: "L \<le> R \<longrightarrow> \<not> colBlack c (nat R)"
    and eq: "cropBlackEdges True cctx c =
               (if T > B \<or> L > R then Inr c
                else if T = 0 \<and> B = int (height c) - 1 \<and> L = 0 \<and> R = int (width c) - 1
                then Inr c
                else if cctx
                then Inr (crop_region c (nat L) (nat T) (nat (R - L + 1)) (nat (B - T + 1)))
                else Inr c)"
    by blast
  let ?c' = "crop_region c (nat L) (nat T) (nat (R - L + 1)) (nat (B - T + 1))"
  from False ctx eq have crop: "cropBlackEdges ctx cctx c = Inr ?c'" and le: "T \<le> B" "L \<le> R"
    by (auto split: if_splits)
  have inside: "x < width c \<Longrightarrow> y < height c \<Longrightarrow> bright (pixel_at c x y)
                  \<Longrightarrow> l \<le> x \<and> x < r \<and> t \<le> y \<and> y < b" for x y
    using assms(3) by (simp add: pixel_at_def)
  have T': "nat T < height c" and B': "nat B < height c"
    and L': "nat L < width c" and R': "nat R < width c"
    using bounds le by linarith+
  from T le bounds rowBlack_has_bright [OF assms(1)] obtain x1 where
    "x1 < width c" "bright (pixel_at c x1 (nat T))"
    by (metis order_trans)
  with inside T' have 1: "t \<le> nat T" by blast
  from B le rowBlack_has_bright [OF assms(1)] obtain x2 where
    "x2 < width c" "bright (pixel_at c x2 (nat B))"
    by blast
  with inside B' have 2: "nat B < b" by blast
  from L le bounds colBlack_has_bright [OF assms(2)] obtain y1 where
    "y1 < height c" "bright (pixel_at c (nat L) y1)"
    by (metis order_trans)
  with inside L' have 3: "l \<le> nat L" by blast
  from R le colBlack_has_bright [OF assms(2)] obtain y2 where
    "y2 < height c" "bright (pixel_at c (nat R) y2)"
    by blast
  with inside R' have 4: "nat R < r" by blast
  have bright: "\<forall>x < width ?c'. \<forall>y < height ?c'. bright (pixel_at ?c' x y)"
  proof (intro allI impI)
    fix x y assume x: "x < width ?c'" and y: "y < height ?c'"
    from x le bounds have xr: "nat L + x \<le> nat R"
      by (simp add: crop_region_simps)
    from y le bounds have yb: "nat T + y \<le> nat B"
      by (simp add: crop_region_simps)
    from xr yb R' B' have "nat L + x < width c" "nat T + y < height c"
      by linarith+
    moreover from xr yb 1 2 3 4
    have "l \<le> nat L + x \<and> nat L + x < r \<and> t \<le> nat T + y \<and> nat T + y < b"
      by linarith
    ultimately have "bright (pixel_at c (nat L + x) (nat T + y))"
      using assms(3) by (simp add: pixel_at_def)
    with x y show "bright (pixel_at ?c' x y)"
      by (simp add: crop_region_simps)
  qed
  have "0 < width ?c'" "0 < height ?c'"
    using le by (simp_all add: crop_region_simps)
  then have "cropBlackEdges ctx cctx ?c' = Inr ?c'"
    using bright by (rule cropBlackEdges_all_bright)
  with crop show ?thesis by blast
qed

theorem cropBlackEdges_idempotent_rectangle_witness:
  "0 < width footer_tile \<and> 0 < height footer_tile
   \<and> cropBlackEdges True True footer_tile = Inr (crop_region footer_tile 0 4 1 1)
   \<and> cropBlackEdges True True (crop_region footer_tile 0 4 1 1)
       = Inr (crop_region footer_tile 0 4 1 1)"
proof -
  have w: "0 < width footer_tile" and h: "0 < height footer_tile"
    by (simp_all add: footer_tile_def)
  have rect: "\<forall>x < width footer_tile. \<forall>y < height footer_tile.
                bright (px footer_tile x y) \<longleftrightarrow> (0 \<le> x \<and> x < 1 \<and> 4 \<le> y \<and> y < 5)"
    by (auto simp: footer_tile_def bright_white not_bright_black)
  note first = footer_tile_cropped
  from cropBlackEdges_idempotent_rectangle [OF w h rect, of True True] first
  have "cropBlackEdges True True (crop_region footer_tile 0 4 1 1)
          = Inr (crop_region footer_tile 0 4 1 1)"
    by auto
  with w h first show ?thesis
    by blast
qed

text \<open>
  On other images a second application can crop further. In \<open>diagonal_tile\<close>, three by
  three pixels, the first application keeps the lower right two by two pixels; their
  first row and first column are read at a dark pixel now and are cropped by the
  second application, which leaves one pixel.
\<close>

theorem cropBlackEdges_not_idempotent:
  "cropBlackEdges True True diagonal_tile = Inr (crop_region diagonal_tile 1 1 2 2)
   \<and> cropBlackEdges True True (crop_region diagonal_tile 1 1 2 2)
       \<noteq> Inr (crop_region diagonal_tile 1 1 2 2)"
proof -
  note 1 = diagonal_tile_cropped and 2 = diagonal_tile_cropped_twice
  have "width (crop_region (crop_region diagonal_tile 1 1 2 2) 1 1 1 1)
          \<noteq> width (crop_region diagonal_tile 1 1 2 2)"
    by (simp add: crop_region_simps)
  then have "crop_region (crop_region diagonal_tile 1 1 2 2) 1 1 1 1
               \<noteq> crop_region diagonal_tile 1 1 2 2"
    by auto
  with 1 2 show ?thesis
    by simp
qed

section \<open>The Canvas Compositor\<close>

lemma foldl_unchanged: "(\<forall>x \<in> set xs. \<forall>a. f a x = a) \<Longrightarrow> foldl f a xs = a"
  by (induction xs arbitrary: a) simp_all

lemma composite_all_absent_eq:
  assumes "\<forall>coord \<in> set (tileCoords g). imgs coord = Some None"
  shows "composite g imgs
           = fillRect (createCanvas (gx g * 512) (gy g * 512)) black (gx g * 512) (gy g * 512)"
proof -
  have "\<forall>coord \<in> set (tileCoords g). \<forall>cv.
          (case imgs coord of
             Some (Some img) \<Rightarrow> drawImage cv img (fst coord * TILE_SIZE) (snd coord * TILE_SIZE)
           | _ \<Rightarrow> cv) = cv"
    using assms by simp
  then show ?thesis
    unfolding composite_def Let_def TILE_SIZE_def by (rule foldl_unchanged)
qed

lemma GRID_SIZES_positive: "g \<in> set GRID_SIZES \<Longrightarrow> 0 < gx g \<and> 0 < gy g"
  by (auto simp: GRID_SIZES_def)

text \<open>
  Claim C8. For every grid of the catalog, the composite of tile results that are all
  absent is a canvas of \<open>columns * 512\<close> by \<open>rows * 512\<close> pixels, every one of them the
  opaque black of the background, and the cropper returns this canvas itself, with no
  exception.
\<close>

theorem composite_all_absent:
  assumes "g \<in> set GRID_SIZES"
    and "\<forall>coord \<in> set (tileCoords g). imgs coord = Some None"
  shows "width (composite g imgs) = gx g * 512
         \<and> height (composite g imgs) = gy g * 512
         \<and> (\<forall>x < gx g * 512. \<forall>y < gy g * 512. pixel_at (composite g imgs) x y = black)
         \<and> cropBlackEdges ctx cctx (composite g imgs) = Inr (composite g imgs)"
proof -
  let ?c = "composite g imgs"
  have c: "?c = fillRect (createCanvas (gx g * 512) (gy g * 512)) black (gx g * 512) (gy g * 512)"
    using assms(2) by (rule composite_all_absent_eq)
  have w: "width ?c = gx g * 512" and h: "height ?c = gy g * 512"
    by (simp_all add: c fillRect_def createCanvas_def)
  have p: "\<forall>x < gx g * 512. \<forall>y < gy g * 512. pixel_at ?c x y = black"
    by (simp add: c fillRect_def createCanvas_def pixel_at_def)
  from GRID_SIZES_positive [OF assms(1)] have pos: "0 < width ?c" "0 < height ?c"
    by (simp_all add: w h)
  from p have "\<forall>x < width ?c. \<forall>y < height ?c. \<not> bright (pixel_at ?c x y)"
    by (simp add: w h not_bright_black)
  with pos have "cropBlackEdges ctx cctx ?c = Inr ?c"
    by (rule cropBlackEdges_all_dark)
  with w h p show ?thesis
    by blast
qed

theorem composite_all_absent_witness:
  "\<lparr>zoom = 3, gx = 8, gy = 4\<rparr> \<in> set GRID_SIZES
   \<and> width (composite \<lparr>zoom = 3, gx = 8, gy = 4\<rparr> (\<lambda>coord. Some None)) = 4096
   \<and> height (composite \<lparr>zoom = 3, gx = 8, gy = 4\<rparr> (\<lambda>coord. Some None)) = 2048
   \<and> pixel_at (composite \<lparr>zoom = 3, gx = 8, gy = 4\<rparr> (\<lambda>coord. Some None)) 4095 2047 = black
   \<and> cropBlackEdges True True (composite \<lparr>zoom = 3, gx = 8, gy = 4\<rparr> (\<lambda>coord. Some None))
       = Inr (composite \<lparr>zoom = 3, gx = 8, gy = 4\<rparr> (\<lambda>coord. Some None))"
proof -
  let ?g = "\<lparr>zoom = 3, gx = 8, gy = 4\<rparr>"
  have g: "?g \<in> set GRID_SIZES"
    by (simp add: GRID_SIZES_def)
  have a: "\<forall>coord \<in> set (tileCoords ?g). (\<lambda>coord. Some None :: canvas option option) coord = Some None"
    by simp
  note t = composite_all_absent [OF g a, of True True]
  from t have "width (composite ?g (\<lambda>coord. Some None)) = 4096"
    and "height (composite ?g (\<lambda>coord. Some None)) = 2048"
    and "cropBlackEdges True True (composite ?g (\<lambda>coord. Some None))
           = Inr (composite ?g (\<lambda>coord. Some None))"
    by simp_all
  moreover from t have "pixel_at (composite ?g (\<lambda>coord. Some None)) 4095 2047 = black"
    by simp
  ultimately show ?thesis
    using g by blast
qed

section \<open>What the cropper and the wrap-seam detector return\<close>

declare wrap_search.simps [simp del] window_diff_rows.simps [simp del]
  window_diff_cols.simps [simp del]

lemma cropBlackEdges_degenerate:
  assumes "width c = 0 \<or> height c = 0" and "cropBlackEdges ctx cctx c = Inr c'"
  shows "c' = c"
proof (cases "height c = 0")
  case True
  have "scan_forward (isRowBlack c) 0 (- 1) = Inr 0"
    by (subst scan_forward.simps) simp
  moreover have "scan_backward (isRowBlack c) (- 1) 0 = Inr (- 1)"
    by (subst scan_backward.simps) simp
  ultimately show ?thesis
    using assms(2) True
    by (auto simp: cropBlackEdges_def Let_def split: if_splits sum.splits)
next
  case False
  with assms(1) have w: "width c = 0" by simp
  then have "isRowBlack c 0 = Inl IndexSizeError"
    by (simp add: isRowBlack_def getImageData_def)
  with False have "scan_forward (isRowBlack c) 0 (int (height c) - 1) = Inl IndexSizeError"
    by (subst scan_forward.simps) simp
  with assms(2) show ?thesis
    by (auto simp: cropBlackEdges_def Let_def split: if_splits)
qed

lemma wrap_search_bound:
  "wrap_search sourceData searchArea startX searchWidth scanHeight dx best m = (b', m') \<Longrightarrow>
   b' = best \<or> (int startX + int dx \<le> b' \<and> b' < int startX + int searchWidth - 16)"
proof (induction sourceData searchArea startX searchWidth scanHeight dx best m
       rule: wrap_search.induct)
  case (1 sourceData searchArea startX searchWidth scanHeight dx bestMatchX minDiff)
  show ?case
  proof (cases "int dx < int searchWidth - 16")
    case False
    with "1.prems" show ?thesis
      by (subst (asm) wrap_search.simps) simp
  next
    case True
    obtain totalDiff pixelsChecked where
      wd: "window_diff_rows sourceData searchArea searchWidth scanHeight dx 0 0 0
             = (totalDiff, pixelsChecked)"
      by (cases "window_diff_rows sourceData searchArea searchWidth scanHeight dx 0 0 0")
    show ?thesis
    proof (cases "pixelsChecked = 0")
      case z: True
      from "1.prems" True wd z
      have "wrap_search sourceData searchArea startX searchWidth scanHeight (dx + 2)
              bestMatchX minDiff = (b', m')"
        by (subst (asm) wrap_search.simps) simp
      from "1.IH"(1) [OF True wd [symmetric] z this] show ?thesis
        by auto
    next
      case nz: False
      let ?avgDiff = "(of_nat totalDiff / of_nat (pixelsChecked * 3) :: rat)"
      let ?better = "(case minDiff of None \<Rightarrow> True | Some m \<Rightarrow> ?avgDiff < m)"
      let ?minDiff' = "(if ?better then Some ?avgDiff else minDiff)"
      let ?bestMatchX' = "(if ?better then int (startX + dx) else bestMatchX)"
      show ?thesis
      proof (cases "?avgDiff < 8")
        case stop: True
        from "1.prems" True wd nz stop have "b' = int (startX + dx)"
          by (subst (asm) wrap_search.simps) (simp add: Let_def del: of_nat_mult)
        with True show ?thesis by simp
      next
        case go: False
        from "1.prems" True wd nz go
        have "wrap_search sourceData searchArea startX searchWidth scanHeight (dx + 2)
                ?bestMatchX' ?minDiff' = (b', m')"
          by (subst (asm) wrap_search.simps) (simp add: Let_def del: of_nat_mult)
        from "1.IH"(2) [OF True wd [symmetric] nz refl refl refl refl go this]
        have "b' = ?bestMatchX'
                \<or> (int startX + int (dx + 2) \<le> b' \<and> b' < int startX + int searchWidth - 16)" .
        with True show ?thesis
          by (auto split: if_splits)
      qed
    qed
  qed
qed

lemma getImageData_Inr:
  "0 < sw \<Longrightarrow> 0 < sh \<Longrightarrow> \<exists>data. getImageData c sx sy sw sh = Inr data"
  by (simp add: getImageData_def)

lemma removeHorizontalWrap_frame:
  "\<exists>c'. removeHorizontalWrap ctx cctx c = Inr c'
        \<and> (c' = c \<or> (0 < width c' \<and> height c' = height c \<and> subregion c' c 0 0))"
proof -
  define startY where "startY = (height c * 3) div 10"
  define scanHeight where "scanHeight = (height c * 4) div 10"
  define startX where "startX = width c div 4"
  define searchWidth where "searchWidth = width c - startX"
  have unfold: "removeHorizontalWrap ctx cctx c =
     (if \<not> ctx then Inr c
      else if scanHeight \<le> 0 \<or> width c < 512 then Inr c
      else
        (case getImageData c 0 startY 16 scanHeight of
           Inl e \<Rightarrow> Inl e
         | Inr sourceData \<Rightarrow>
             (if searchWidth \<le> 16 then Inr c
              else
                (case getImageData c startX startY searchWidth scanHeight of
                   Inl e \<Rightarrow> Inl e
                 | Inr searchArea \<Rightarrow>
                     (case wrap_search sourceData searchArea startX searchWidth scanHeight
                             0 (- 1) None of
                        (bestMatchX, minDiff) \<Rightarrow>
                          (if bestMatchX \<noteq> - 1
                                \<and> (case minDiff of None \<Rightarrow> False | Some m \<Rightarrow> m < 15)
                           then if cctx then Inr (crop_region c 0 0 (nat bestMatchX) (height c))
                                else Inr c
                           else Inr c))))))"
    by (simp only: removeHorizontalWrap_def Let_def startY_def scanHeight_def startX_def
        searchWidth_def crop_region_def)
  show ?thesis
  proof (cases "\<not> ctx \<or> scanHeight \<le> 0 \<or> width c < 512")
    case True
    have "removeHorizontalWrap ctx cctx c = Inr c"
      unfolding unfold using True by auto
    then show ?thesis by blast
  next
    case False
    then have ctx: ctx and sh: "0 < scanHeight" and w: "512 \<le> width c"
      by simp_all
    from sh obtain sourceData where
      src: "getImageData c 0 startY 16 scanHeight = Inr sourceData"
      using getImageData_Inr [of 16 scanHeight c 0 startY] by auto
    show ?thesis
    proof (cases "searchWidth \<le> 16")
      case True
      have "removeHorizontalWrap ctx cctx c = Inr c"
        unfolding unfold using True ctx sh w src by simp
      then show ?thesis by blast
    next
      case wide: False
      with sh obtain searchArea where
        area: "getImageData c startX startY searchWidth scanHeight = Inr searchArea"
        using getImageData_Inr [of searchWidth scanHeight c startX startY] by auto
      obtain bestMatchX minDiff where
        ws: "wrap_search sourceData searchArea startX searchWidth scanHeight 0 (- 1) None
               = (bestMatchX, minDiff)"
        by (cases "wrap_search sourceData searchArea startX searchWidth scanHeight 0 (- 1) None")
      let ?c' = "crop_region c 0 0 (nat bestMatchX) (height c)"
      have eq: "removeHorizontalWrap ctx cctx c =
                  (if bestMatchX \<noteq> - 1 \<and> (case minDiff of None \<Rightarrow> False | Some m \<Rightarrow> m < 15)
                   then (if cctx then Inr ?c' else Inr c) else Inr c)"
        unfolding unfold using ctx sh w wide by (simp add: src area ws)
      show ?thesis
      proof (cases "removeHorizontalWrap ctx cctx c = Inr c")
        case True
        then show ?thesis by blast
      next
        case False
        with eq have wrap: "removeHorizontalWrap ctx cctx c = Inr ?c'"
          and found: "bestMatchX \<noteq> - 1"
          by (auto split: if_splits)
        from wrap_search_bound [OF ws] found
        have lo: "int startX \<le> bestMatchX"
          and hi: "bestMatchX < int startX + int searchWidth - 16"
          by auto
        from w have "0 < startX" by (simp add: startX_def)
        with lo have pos: "0 < nat bestMatchX" by simp
        from hi have le: "nat bestMatchX \<le> width c" by (simp add: searchWidth_def startX_def)
        from le have "subregion ?c' c 0 0"
          by (simp add: subregion_def crop_region_simps)
        with pos wrap show ?thesis
          by (auto simp: crop_region_simps)
      qed
    qed
  qed
qed

text \<open>
  Claim C10, as the code has it. On a canvas of positive width and height the cropper
  returns; whatever it returns is the input itself or a canvas whose bitmap is a
  rectangle of the input, pixel for pixel. The wrap-seam detector returns for every
  canvas, and what it returns is the input itself or the columns of the input left of
  the seam at their full height. In both cases the output is no wider and no higher
  than the input.
\<close>

theorem crop_and_wrap_return_subregions:
  "(0 < width c \<and> 0 < height c \<longrightarrow> (\<exists>c'. cropBlackEdges ctx cctx c = Inr c'))
   \<and> (\<forall>c'. cropBlackEdges ctx cctx c = Inr c' \<longrightarrow>
          width c' \<le> width c \<and> height c' \<le> height c
          \<and> (c' = c \<or> (\<exists>l t. subregion c' c l t)))
   \<and> (\<exists>c'. removeHorizontalWrap ctx cctx c = Inr c'
          \<and> width c' \<le> width c \<and> height c' = height c
          \<and> (c' = c \<or> subregion c' c 0 0))"
proof (intro conjI impI allI)
  assume "0 < width c \<and> 0 < height c"
  then show "\<exists>c'. cropBlackEdges ctx cctx c = Inr c'"
    using cropBlackEdges_frame [of c ctx cctx] by blast
next
  fix c' assume r: "cropBlackEdges ctx cctx c = Inr c'"
  have "c' = c \<or> (\<exists>l t. subregion c' c l t)"
  proof (cases "0 < width c \<and> 0 < height c")
    case True
    with cropBlackEdges_frame [of c ctx cctx] r show ?thesis by auto
  next
    case False
    then have "width c = 0 \<or> height c = 0" by simp
    then have "c' = c" using r by (rule cropBlackEdges_degenerate)
    then show ?thesis by simp
  qed
  then show "width c' \<le> width c" "height c' \<le> height c" "c' = c \<or> (\<exists>l t. subregion c' c l t)"
    by (auto simp: subregion_def)
next
  from removeHorizontalWrap_frame [of ctx cctx c] obtain c' where
    "removeHorizontalWrap ctx cctx c = Inr c'"
    "c' = c \<or> (0 < width c' \<and> height c' = height c \<and> subregion c' c 0 0)"
    by blast
  then show "\<exists>c'. removeHorizontalWrap ctx cctx c = Inr c'
          \<and> width c' \<le> width c \<and> height c' = height c
          \<and> (c' = c \<or> subregion c' c 0 0)"
    by (auto simp: subregion_def)
qed

theorem crop_and_wrap_return_subregions_witness:
  "0 < width footer_tile \<and> 0 < height footer_tile
   \<and> cropBlackEdges True True footer_tile = Inr (crop_region footer_tile 0 4 1 1)
   \<and> width (crop_region footer_tile 0 4 1 1) \<le> width footer_tile
   \<and> height (crop_region footer_tile 0 4 1 1) \<le> height footer_tile
   \<and> (crop_region footer_tile 0 4 1 1 = footer_tile
       \<or> (\<exists>l t. subregion (crop_region footer_tile 0 4 1 1) footer_tile l t))"
proof -
  have w: "0 < width footer_tile" and h: "0 < height footer_tile"
    by (simp_all add: footer_tile_def)
  note first = footer_tile_cropped
  from crop_and_wrap_return_subregions [of footer_tile True True] first
  have "width (crop_region footer_tile 0 4 1 1) \<le> width footer_tile
        \<and> height (crop_region footer_tile 0 4 1 1) \<le> height footer_tile
        \<and> (crop_region footer_tile 0 4 1 1 = footer_tile
            \<or> (\<exists>l t. subregion (crop_region footer_tile 0 4 1 1) footer_tile l t))"
    by blast
  with w h first show ?thesis
    by blast
qed

text \<open>
  On a canvas with no column and one row the cropper returns nothing: the first
  \<^verbatim>\<open>getImageData(0, 0, 0, 1)\<close> of \<^verbatim>\<open>isRowBlack\<close> throws.
\<close>

theorem cropBlackEdges_thin_canvas:
  "width thin_canvas = 0 \<and> height thin_canvas = 1
   \<and> cropBlackEdges True True thin_canvas = Inl IndexSizeError"
  by (simp add: thin_canvas_cropped) (simp add: thin_canvas_def)

section \<open>The outcome of a job\<close>

declare fetchTileWithRetry_load.simps [simp del]

text \<open>The fetcher assigns the URL at most twice.\<close>

lemma fetchTileWithRetry_two_attempts:
  "fetchTileWithRetry net url =
     (case net url 0 of
        Loaded img \<Rightarrow> Inr img
      | Errored \<Rightarrow>
          (case net url 1 of
             Loaded img \<Rightarrow> Inr img
           | Errored \<Rightarrow> Inl (TileUnavailable url)))"
proof -
  have second: "fetchTileWithRetry_load (net url) url 2 1 =
                  (case net url 1 of
                     Loaded img \<Rightarrow> Inr img
                   | Errored \<Rightarrow> Inl (TileUnavailable url))"
    by (subst fetchTileWithRetry_load.simps) (simp split: load_event.splits)
  have "fetchTileWithRetry_load (net url) url 2 0 =
          (case net url 0 of
             Loaded img \<Rightarrow> Inr img
           | Errored \<Rightarrow> fetchTileWithRetry_load (net url) url 2 1)"
    by (subst fetchTileWithRetry_load.simps) (simp split: load_event.splits)
  then show ?thesis
    by (simp only: fetchTileWithRetry_def second)
qed

lemma composite_size:
  "width (composite g imgs) = gx g * 512 \<and> height (composite g imgs) = gy g * 512"
proof -
  have "width (foldl (\<lambda>cv coord.
                  case imgs coord of
                    Some (Some img) \<Rightarrow> drawImage cv img (fst coord * TILE_SIZE) (snd coord * TILE_SIZE)
                  | _ \<Rightarrow> cv) c0 xs) = width c0
      \<and> height (foldl (\<lambda>cv coord.
                  case imgs coord of
                    Some (Some img) \<Rightarrow> drawImage cv img (fst coord * TILE_SIZE) (snd coord * TILE_SIZE)
                  | _ \<Rightarrow> cv) c0 xs) = height c0" for c0 xs
    by (induction xs arbitrary: c0) (auto simp: drawImage_def split: option.splits)
  then show ?thesis
    by (simp add: composite_def Let_def fillRect_def createCanvas_def TILE_SIZE_def)
qed

lemma find_GRID_SIZES: "find (\<lambda>g. zoom g = z) GRID_SIZES = Some g \<Longrightarrow> g \<in> set GRID_SIZES"
  by (auto simp: GRID_SIZES_def split: if_splits)

text \<open>
  On a supported zoom level the job fails exactly when the compositor gets no context;
  otherwise it resolves with the data URL of some canvas.
\<close>

lemma stitch_outcome:
  assumes "find (\<lambda>g. zoom g = z) GRID_SIZES = Some g"
  shows "\<exists>finalCanvas. outcome (stitchStreetViewImage env schedule panoId z) =
           (if compositorContext env then Inr (toDataURL env finalCanvas)
            else Inl RenderingUnavailable)"
proof -
  let ?s = "run_workers env panoId z (length (tileCoords g)) schedule
              ((worker_turn panoId z ^^ CONCURRENT_DOWNLOADS) (start_job g))"
  let ?canvas = "composite g (images ?s)"
  from find_GRID_SIZES [OF assms] have "0 < gx g \<and> 0 < gy g"
    by (rule GRID_SIZES_positive)
  then have pos: "0 < width ?canvas" "0 < height ?canvas"
    by (simp_all add: composite_size)
  from cropBlackEdges_frame [OF pos, of "cropperContext env" "croppedContext env"]
  obtain croppedCanvas where
    crop: "cropBlackEdges (cropperContext env) (croppedContext env) ?canvas = Inr croppedCanvas"
    by blast
  from removeHorizontalWrap_frame [of "wrapContext env" "wrappedContext env" croppedCanvas]
  obtain finalCanvas where
    wrap: "removeHorizontalWrap (wrapContext env) (wrappedContext env) croppedCanvas
             = Inr finalCanvas"
    by blast
  have "outcome (stitchStreetViewImage env schedule panoId z) =
          (if compositorContext env then Inr (toDataURL env finalCanvas)
           else Inl RenderingUnavailable)"
    by (simp add: stitch_supported(3) [OF assms] crop wrap)
  then show ?thesis by blast
qed

text \<open>
  With the compositor's context the job resolves with the encoding of one canvas: the
  composite of the stored tile results, cropped and then cut at the seam. The cropper
  and the wrap-seam detector return on it, and what they return has pixels.
\<close>

lemma stitch_outcome_exact:
  assumes "find (\<lambda>g. zoom g = z) GRID_SIZES = Some g"
  shows "\<exists>croppedCanvas finalCanvas.
           cropBlackEdges (cropperContext env) (croppedContext env)
               (composite g (tiles (stitchStreetViewImage env schedule panoId z)))
             = Inr croppedCanvas
           \<and> removeHorizontalWrap (wrapContext env) (wrappedContext env) croppedCanvas
               = Inr finalCanvas
           \<and> 0 < width finalCanvas \<and> 0 < height finalCanvas
           \<and> outcome (stitchStreetViewImage env schedule panoId z) =
               (if compositorContext env then Inr (toDataURL env finalCanvas)
                else Inl RenderingUnavailable)"
proof -
  let ?s = "run_workers env panoId z (length (tileCoords g)) schedule
              ((worker_turn panoId z ^^ CONCURRENT_DOWNLOADS) (start_job g))"
  let ?canvas = "composite g (images ?s)"
  have tiles: "tiles (stitchStreetViewImage env schedule panoId z) = images ?s"
    using assms by (rule stitch_supported(2))
  from find_GRID_SIZES [OF assms] have "0 < gx g \<and> 0 < gy g"
    by (rule GRID_SIZES_positive)
  then have pos: "0 < width ?canvas" "0 < height ?canvas"
    by (simp_all add: composite_size)
  from cropBlackEdges_frame [OF pos, of "cropperContext env" "croppedContext env"]
  obtain croppedCanvas where
    crop: "cropBlackEdges (cropperContext env) (croppedContext env) ?canvas = Inr croppedCanvas"
    and cpos: "0 < width croppedCanvas \<and> 0 < height croppedCanvas"
    using pos by blast
  from removeHorizontalWrap_frame [of "wrapContext env" "wrappedContext env" croppedCanvas]
  obtain finalCanvas where
    wrap: "removeHorizontalWrap (wrapContext env) (wrappedContext env) croppedCanvas
             = Inr finalCanvas"
    and fpos: "0 < width finalCanvas \<and> 0 < height finalCanvas"
    using cpos by auto
  have "outcome (stitchStreetViewImage env schedule panoId z) =
          (if compositorContext env then Inr (toDataURL env finalCanvas)
           else Inl RenderingUnavailable)"
    by (simp add: stitch_supported(3) [OF assms] crop wrap)
  with crop wrap fpos show ?thesis
    unfolding tiles by blast
qed

text \<open>
  Claim C2, as the code has it. On a supported zoom level, every tile whose fetch is
  rejected (both attempts ended in an error) is stored as absent at its coordinate, and
  no rejection reaches the caller, also when every single tile fails: the job never
  fails with the error of a tile. The cropper and the wrap-seam detector return on
  the composite of the stored tile results, and with the compositor's canvas context
  the job resolves with the encoding of exactly the canvas they return, which has
  pixels. Without that context the job fails with the rendering error, the one failure
  of a job on a supported zoom level.
\<close>

theorem stitch_absorbs_tile_failures:
  fixes env schedule panoId z g
  assumes "find (\<lambda>g. zoom g = z) GRID_SIZES = Some g"
  defines "job \<equiv> stitchStreetViewImage env schedule panoId z"
  shows "(\<forall>coord \<in> set (tileCoords g).
            (\<exists>e. fetchTileWithRetry (network env) (tileUrl panoId z coord) = Inl e)
              \<longrightarrow> tiles job coord = Some None)
         \<and> (\<forall>coord. tiles job coord =
                (if coord \<in> set (tileCoords g) then Some (tile_result env panoId z coord)
                 else None))
         \<and> (\<forall>url. outcome job \<noteq> Inl (TileUnavailable url))
         \<and> (\<forall>e. outcome job = Inl e \<longrightarrow> e = RenderingUnavailable \<and> \<not> compositorContext env)
         \<and> (\<exists>croppedCanvas finalCanvas.
                cropBlackEdges (cropperContext env) (croppedContext env) (composite g (tiles job))
                  = Inr croppedCanvas
                \<and> removeHorizontalWrap (wrapContext env) (wrappedContext env) croppedCanvas
                    = Inr finalCanvas
                \<and> 0 < width finalCanvas \<and> 0 < height finalCanvas
                \<and> outcome job =
                    (if compositorContext env then Inr (toDataURL env finalCanvas)
                     else Inl RenderingUnavailable))"
proof (intro conjI ballI impI allI)
  fix coord
  assume "coord \<in> set (tileCoords g)"
    and "\<exists>e. fetchTileWithRetry (network env) (tileUrl panoId z coord) = Inl e"
  then show "tiles job coord = Some None"
    by (auto simp: job_def stitch_tiles [OF assms(1)] tile_result_def)
next
  fix coord
  show "tiles job coord =
          (if coord \<in> set (tileCoords g) then Some (tile_result env panoId z coord) else None)"
    unfolding job_def using assms(1) by (rule stitch_tiles)
next
  fix url
  from stitch_outcome [OF assms(1), of env schedule panoId]
  show "outcome job \<noteq> Inl (TileUnavailable url)"
    by (auto simp: job_def split: if_splits)
next
  fix e assume "outcome job = Inl e"
  with stitch_outcome [OF assms(1), of env schedule panoId]
  show "e = RenderingUnavailable" "\<not> compositorContext env"
    by (auto simp: job_def split: if_splits)
next
  show "\<exists>croppedCanvas finalCanvas.
          cropBlackEdges (cropperContext env) (croppedContext env) (composite g (tiles job))
            = Inr croppedCanvas
          \<and> removeHorizontalWrap (wrapContext env) (wrappedContext env) croppedCanvas
              = Inr finalCanvas
          \<and> 0 < width finalCanvas \<and> 0 < height finalCanvas
          \<and> outcome job =
              (if compositorContext env then Inr (toDataURL env finalCanvas)
               else Inl RenderingUnavailable)"
    unfolding job_def using assms(1) by (rule stitch_outcome_exact)
qed

lemma map_constant: "(\<forall>x \<in> set xs. f x = v) \<Longrightarrow> map f xs = replicate (length xs) v"
  by (induction xs) simp_all

theorem stitch_absorbs_tile_failures_witness:
  "find (\<lambda>g. zoom g = 3) GRID_SIZES = Some \<lparr>zoom = 3, gx = 8, gy = 4\<rparr>
   \<and> compositorContext offline_browser
   \<and> fetchTileWithRetry (network offline_browser) (tileUrl ''pano'' 3 (7, 3))
       = Inl (TileUnavailable (tileUrl ''pano'' 3 (7, 3)))
   \<and> tiles (stitchStreetViewImage offline_browser [2, 9] ''pano'' 3) (7, 3) = Some None
   \<and> map (tiles (stitchStreetViewImage offline_browser [2, 9] ''pano'' 3))
        (tileCoords \<lparr>zoom = 3, gx = 8, gy = 4\<rparr>) = replicate 32 (Some None)
   \<and> outcome (stitchStreetViewImage offline_browser [2, 9] ''pano'' 3)
       = Inr ''data:image/jpeg;base64,''"
proof -
  let ?g = "\<lparr>zoom = 3, gx = 8, gy = 4\<rparr>"
  let ?job = "stitchStreetViewImage offline_browser [2, 9] ''pano'' 3"
  have h: "find (\<lambda>g. zoom g = 3) GRID_SIZES = Some ?g"
    by (simp add: GRID_SIZES_def)
  note t = stitch_absorbs_tile_failures [OF h, where env = offline_browser
      and schedule = "[2, 9]" and panoId = "''pano''"]
  have rejected: "fetchTileWithRetry (network offline_browser) url = Inl (TileUnavailable url)"
    for url
    by (simp add: fetchTileWithRetry_two_attempts offline_browser_def)
  from t rejected have all: "\<forall>coord \<in> set (tileCoords ?g). tiles ?job coord = Some None"
    by blast
  then have "map (tiles ?job) (tileCoords ?g) = replicate (length (tileCoords ?g)) (Some None)"
    by (rule map_constant)
  then have m: "map (tiles ?job) (tileCoords ?g) = replicate 32 (Some None)"
    by (simp add: length_tileCoords)
  have "(7, 3) \<in> set (tileCoords ?g)"
    by (force simp: tileCoords_def)
  with all have one: "tiles ?job (7, 3) = Some None"
    by blast
  have c: "compositorContext offline_browser"
    by (simp add: offline_browser_def)
  from t obtain finalCanvas where
    "outcome ?job = (if compositorContext offline_browser
                     then Inr (toDataURL offline_browser finalCanvas)
                     else Inl RenderingUnavailable)"
    by blast
  with c have "outcome ?job = Inr (toDataURL offline_browser finalCanvas)"
    by simp
  then have o: "outcome ?job = Inr ''data:image/jpeg;base64,''"
    by (simp add: offline_browser_def)
  from h c rejected m one o show ?thesis
    by blast
qed

text \<open>
  The claim as the specification words it, that the job returns an encoded image
  whatever else happens, fails: in \<open>offline_headless_browser\<close> every fetch is
  rejected, the compositor gets no context, and the job is rejected with the rendering
  error.
\<close>

theorem stitch_fails_without_compositor_context:
  "fetchTileWithRetry (network offline_headless_browser) (tileUrl ''pano'' 3 (0, 0))
     = Inl (TileUnavailable (tileUrl ''pano'' 3 (0, 0)))
   \<and> outcome (stitchStreetViewImage offline_headless_browser [] ''pano'' 3)
       = Inl RenderingUnavailable"
proof -
  have h: "find (\<lambda>g. zoom g = 3) GRID_SIZES = Some \<lparr>zoom = 3, gx = 8, gy = 4\<rparr>"
    by (simp add: GRID_SIZES_def)
  have "\<not> compositorContext offline_headless_browser"
    by (simp add: offline_headless_browser_def)
  with stitch_outcome [OF h, of offline_headless_browser "[]" "''pano''"]
  have "outcome (stitchStreetViewImage offline_headless_browser [] ''pano'' 3)
          = Inl RenderingUnavailable"
    by simp
  moreover have "fetchTileWithRetry (network offline_headless_browser) (tileUrl ''pano'' 3 (0, 0))
                   = Inl (TileUnavailable (tileUrl ''pano'' 3 (0, 0)))"
    by (simp add: fetchTileWithRetry_two_attempts offline_headless_browser_def)
  ultimately show ?thesis
    by simp
qed





end
